theory Spec2Isabelle
  imports Main "HOL-Library.Multiset"
begin

chapter \<open>The model: definitions translated from the source\<close>

section \<open>Project state (state/types.ts)\<close>

text \<open>
  The interfaces of \<open>types.ts\<close> as records and its string-literal unions as datatypes.
  Record fields are global names in HOL, so the fields that several interfaces share
  (\<open>sessionId\<close>, \<open>status\<close>, \<open>error\<close>, \<open>id\<close>, \<open>name\<close>) carry a short prefix of
  their interface. A nullable field (\<open>string | null\<close>, \<open>error?: string\<close>) is an
  \<open>option\<close>. Timestamps are the integers \<open>Date.now()\<close> returns. \<open>tasks\<close>, a
  \<open>Record<string, TaskExecution>\<close>, is an association list in the order in which
  \<open>Object.values\<close> enumerates it, with pairwise distinct keys.
\<close>

datatype ProjectPhase =
  PhasePlanning | PhaseApproval | PhaseExecuting | PhaseIntegrating | PhaseCompleted | PhaseFailed

datatype SubStatus = StPending | StRunning | StCompleted | StFailed

datatype TaskStatus = TaskPending | TaskRunning | TaskCompleted | TaskFailed | TaskSkipped

datatype Complexity = Small | Medium | Large

record Repo =
  repo_owner :: string
  repo_name :: string

record PlanningState =
  pl_sessionId :: "string option"
  pl_model :: string
  pl_status :: SubStatus
  pl_error :: "string option"

record TaskNode =
  node_id :: string
  title :: string
  description :: string
  fileScope :: "string list"
  dependsOn :: "string list"
  complexity :: Complexity

record Plan =
  plan_summary :: string
  plan_tasks :: "TaskNode list"

record TaskExecution =
  taskId :: string
  status :: TaskStatus
  sessionId :: "string option"
  branchName :: "string option"
  startedAt :: "int option"
  completedAt :: "int option"
  summary :: "string option"
  error :: "string option"
  retryCount :: nat

record IntegrationState =
  in_sessionId :: "string option"
  in_status :: SubStatus
  mergedBranch :: "string option"
  prUrl :: "string option"
  in_error :: "string option"

record ProjectState =
  project_id :: string
  createdAt :: int
  updatedAt :: int
  goal :: string
  repo :: Repo
  phase :: ProjectPhase
  planning :: PlanningState
  plan :: "Plan option"
  tasks :: "(string \<times> TaskExecution) list"
  integration :: IntegrationState

text \<open>JavaScript truthiness of a nullable string: \<open>null\<close> and the empty string are falsy.\<close>

fun truthy :: "string option \<Rightarrow> bool" where
  "truthy None = False"
| "truthy (Some s) = (s \<noteq> [])"

text \<open>\<open>x || d\<close> on a nullable string.\<close>

fun or_else :: "string option \<Rightarrow> string \<Rightarrow> string" where
  "or_else None d = d"
| "or_else (Some s) d = (if s = [] then d else s)"

section \<open>The control-plane client and the effects of a run (api/client.ts)\<close>

text \<open>
  The remote control plane is an external collaborator. A run of a phase controller is
  deterministic once the answers of the collaborator are fixed, so the client is a record
  of answers: the answer to the \<open>k\<close>-th call of each method (\<open>Inl\<close> when the call
  throws, with the error's message), and the \<open>k\<close>-th reading of \<open>Date.now()\<close>. The
  \<open>World\<close> counts the calls made so far and keeps the snapshot last written by
  \<open>saveProject\<close>. Prompt texts and session titles are sent to the
  collaborator and never read back, so they are not part of the model.

  \<open>getSession\<close> normalises the raw answer as \<open>client.ts\<close> does: a missing sandbox
  reads as status \<open>pending\<close>, and \<open>isProcessing\<close> holds when the sandbox is
  \<open>running\<close> or \<open>ready\<close>.
\<close>

type_synonym err = string

record EventData =
  content :: "string option"
  success :: "bool option"
  ev_error :: "string option"

record AgentEvent =
  ev_id :: string
  ev_type :: string
  ev_data :: EventData

record SessionArtifact =
  art_type :: string
  art_url :: "string option"

record SessionStateRaw =
  raw_branchName :: "string option"
  raw_sandbox_status :: "string option"

record SessionState =
  ss_branchName :: "string option"
  sandboxStatus :: string
  isProcessing :: bool

record Client =
  createSession_res :: "nat \<Rightarrow> err + string"
  sendPrompt_res :: "nat \<Rightarrow> err + unit"
  getSession_res :: "nat \<Rightarrow> err + SessionStateRaw"
  getEvents_res :: "nat \<Rightarrow> err + AgentEvent list"
  getArtifacts_res :: "nat \<Rightarrow> err + SessionArtifact list"
  dateNow :: "nat \<Rightarrow> int"

record World =
  n_createSession :: nat
  n_sendPrompt :: nat
  n_getSession :: nat
  n_getEvents :: nat
  n_getArtifacts :: nat
  n_dateNow :: nat
  saved :: "ProjectState option"

definition world0 :: World where
  "world0 = \<lparr>n_createSession = 0, n_sendPrompt = 0, n_getSession = 0, n_getEvents = 0,
     n_getArtifacts = 0, n_dateNow = 0, saved = None\<rparr>"

definition normalize_session :: "SessionStateRaw \<Rightarrow> SessionState" where
  "normalize_session raw =
     \<lparr>ss_branchName = raw_branchName raw,
      sandboxStatus = (case raw_sandbox_status raw of None \<Rightarrow> ''pending'' | Some s \<Rightarrow> s),
      isProcessing = (raw_sandbox_status raw = Some ''running'' \<or>
                      raw_sandbox_status raw = Some ''ready'')\<rparr>"

definition createSession :: "Client \<Rightarrow> World \<Rightarrow> (err + string) \<times> World" where
  "createSession c w =
     (createSession_res c (n_createSession w), w\<lparr>n_createSession := Suc (n_createSession w)\<rparr>)"

definition sendPrompt :: "Client \<Rightarrow> World \<Rightarrow> (err + unit) \<times> World" where
  "sendPrompt c w =
     (sendPrompt_res c (n_sendPrompt w), w\<lparr>n_sendPrompt := Suc (n_sendPrompt w)\<rparr>)"

definition getSession :: "Client \<Rightarrow> World \<Rightarrow> (err + SessionState) \<times> World" where
  "getSession c w =
     (map_sum (\<lambda>e. e) normalize_session (getSession_res c (n_getSession w)),
      w\<lparr>n_getSession := Suc (n_getSession w)\<rparr>)"

definition getEvents :: "Client \<Rightarrow> World \<Rightarrow> (err + AgentEvent list) \<times> World" where
  "getEvents c w =
     (getEvents_res c (n_getEvents w), w\<lparr>n_getEvents := Suc (n_getEvents w)\<rparr>)"

definition getArtifacts :: "Client \<Rightarrow> World \<Rightarrow> (err + SessionArtifact list) \<times> World" where
  "getArtifacts c w =
     (getArtifacts_res c (n_getArtifacts w), w\<lparr>n_getArtifacts := Suc (n_getArtifacts w)\<rparr>)"

text \<open>
  \<open>saveProject\<close> as the controllers see it: it stamps \<open>updatedAt\<close> with the clock and
  writes the stamped state. The file it writes is modelled with the project store below;
  here the written snapshot replaces the one the world holds.
\<close>

definition persist :: "Client \<Rightarrow> World \<Rightarrow> ProjectState \<Rightarrow> ProjectState \<times> World" where
  "persist c w state =
     (let state' = state\<lparr>updatedAt := dateNow c (n_dateNow w)\<rparr>
      in (state', w\<lparr>n_dateNow := Suc (n_dateNow w), saved := Some state'\<rparr>))"

section \<open>Plain JavaScript objects used as maps\<close>

text \<open>
  \<open>state.tasks\<close> is a plain object (\<open>tasks: {}\<close> in \<open>createProject\<close>, or what
  \<open>JSON.parse\<close> builds). Its own properties are enumerated, by \<open>Object.values\<close> and by
  \<open>JSON.stringify\<close>, with the keys that are array indices first, in ascending numeric
  order, and then the other string keys in the order in which they were created. An array
  index is the canonical decimal numeral of an integer below \<open>2^32 - 1\<close>.
\<close>

definition is_digit :: "char \<Rightarrow> bool" where
  "is_digit c \<longleftrightarrow> 48 \<le> (of_char c :: nat) \<and> (of_char c :: nat) \<le> 57"

definition dec :: "string \<Rightarrow> nat" where
  "dec s = foldl (\<lambda>n c. 10 * n + (of_char c - 48)) 0 s"

definition array_index :: "string \<Rightarrow> nat option" where
  "array_index s =
     (if s \<noteq> [] \<and> list_all is_digit s \<and> (s = ''0'' \<or> hd s \<noteq> CHR ''0'') \<and> dec s < 4294967295
      then Some (dec s) else None)"

text \<open>The place of a new array-index key \<open>n\<close> among the own properties.\<close>

fun insert_index :: "nat \<Rightarrow> string \<times> 'v \<Rightarrow> (string \<times> 'v) list \<Rightarrow> (string \<times> 'v) list" where
  "insert_index n kv [] = [kv]"
| "insert_index n kv (x # xs) =
     (case array_index (fst x) of
        Some m \<Rightarrow> if m < n then x # insert_index n kv xs else kv # x # xs
      | None \<Rightarrow> kv # x # xs)"

text \<open>
  \<open>obj[k] = v\<close>: an own property keeps its place and takes the new value; a new key is
  created at its place in the enumeration order.
\<close>

definition obj_set :: "string \<Rightarrow> 'v \<Rightarrow> (string \<times> 'v) list \<Rightarrow> (string \<times> 'v) list" where
  "obj_set k v kvs =
     (if map_of kvs k \<noteq> None then map (\<lambda>kv. if fst kv = k then (k, v) else kv) kvs
      else (case array_index k of
              Some n \<Rightarrow> insert_index n (k, v) kvs
            | None \<Rightarrow> kvs @ [(k, v)]))"

text \<open>
  A read \<open>obj[k]\<close> of a key that is not an own property goes to \<open>Object.prototype\<close>,
  whose members (functions, and the prototype object itself under \<open>__proto__\<close>) are all
  truthy.
\<close>

definition object_prototype_keys :: "string list" where
  "object_prototype_keys =
     [''constructor'', ''__defineGetter__'', ''__defineSetter__'', ''hasOwnProperty'',
      ''__lookupGetter__'', ''__lookupSetter__'', ''isPrototypeOf'', ''propertyIsEnumerable'',
      ''toString'', ''valueOf'', ''__proto__'', ''toLocaleString'']"

text \<open>\<open>obj[k]\<close> read as a condition, on an object whose own values are objects.\<close>

definition obj_truthy :: "(string \<times> 'v) list \<Rightarrow> string \<Rightarrow> bool" where
  "obj_truthy kvs k \<longleftrightarrow> map_of kvs k \<noteq> None \<or> k \<in> set object_prototype_keys"

section \<open>Structured-output extraction (util/json-extractor.ts)\<close>

text \<open>
  Strings are lists of 8-bit characters, read as the code units of the JavaScript string.
  \<open>is_space\<close> is the class \<open>\s\<close> on them (tab, line feed, vertical tab, form feed,
  carriage return, space, no-break space), which is also what \<open>trim\<close> removes.
\<close>

definition is_space :: "char \<Rightarrow> bool" where
  "is_space ch = (of_char ch \<in> {9, 10, 11, 12, 13, 32, 160 :: nat})"

definition trim :: "string \<Rightarrow> string" where
  "trim s = rev (dropWhile is_space (rev (dropWhile is_space s)))"

definition fence :: string where
  "fence = [CHR 0x60, CHR 0x60, CHR 0x60]"

text \<open>
  The lazy group \<open>([\s\S]*?)\<close> followed by the closing fence: the text up to the first
  occurrence of three backquotes.
\<close>

fun until_fence :: "string \<Rightarrow> string option" where
  "until_fence [] = None"
| "until_fence (ch # rest) =
     (if take 3 (ch # rest) = fence then Some []
      else map_option (\<lambda>r. ch # r) (until_fence rest))"

text \<open>
  An attempt to match the rest of the pattern \<open>(?:json)?\s*\n?([\s\S]*?)```\<close> after an
  opening fence. The optional \<open>json\<close> and the whitespace are taken greedily; the
  \<open>\n?\<close> that follows \<open>\s*\<close> then has nothing left to take. Giving characters back
  cannot turn a failed attempt into a match, since the characters given back are letters
  or whitespace and the closing fence would still have to be found after them.
\<close>

definition fence_body :: "string \<Rightarrow> string option" where
  "fence_body s =
     (let s1 = (if take 4 s = ''json'' then drop 4 s else s)
      in until_fence (dropWhile is_space s1))"

text \<open>\<open>text.match(...)\<close>: the capture group of the leftmost match.\<close>

fun fence_match :: "string \<Rightarrow> string option" where
  "fence_match [] = None"
| "fence_match (ch # rest) =
     (if take 3 (ch # rest) = fence then
        (case fence_body (drop 3 (ch # rest)) of
           Some captured \<Rightarrow> Some captured
         | None \<Rightarrow> fence_match rest)
      else fence_match rest)"

text \<open>
  \<open>extractBalanced\<close>, started at the opening delimiter: the loop over the characters
  with \<open>depth\<close>, \<open>inString\<close> and \<open>escape\<close>. The result is the slice from the start to
  the closing delimiter that brings the depth back to zero.
\<close>

fun balanced_scan :: "char \<Rightarrow> char \<Rightarrow> int \<Rightarrow> bool \<Rightarrow> bool \<Rightarrow> string \<Rightarrow> string option" where
  "balanced_scan opn cls depth inString escape [] = None"
| "balanced_scan opn cls depth inString escape (ch # rest) =
     (if escape then map_option (\<lambda>r. ch # r) (balanced_scan opn cls depth inString False rest)
      else if ch = CHR 0x5C
        then map_option (\<lambda>r. ch # r) (balanced_scan opn cls depth inString True rest)
      else if ch = CHR 0x22
        then map_option (\<lambda>r. ch # r) (balanced_scan opn cls depth (\<not> inString) False rest)
      else if inString
        then map_option (\<lambda>r. ch # r) (balanced_scan opn cls depth inString False rest)
      else if ch = opn
        then map_option (\<lambda>r. ch # r) (balanced_scan opn cls (depth + 1) inString False rest)
      else if ch = cls then
        (if depth - 1 = 0 then Some [ch]
         else map_option (\<lambda>r. ch # r) (balanced_scan opn cls (depth - 1) inString False rest))
      else map_option (\<lambda>r. ch # r) (balanced_scan opn cls depth inString False rest))"

text \<open>
  \<open>text.indexOf(open)\<close> followed by \<open>extractBalanced(text, start, open, close)\<close>;
  \<open>None\<close> when the delimiter does not occur or is never closed.
\<close>

definition extractBalanced :: "string \<Rightarrow> char \<Rightarrow> char \<Rightarrow> string option" where
  "extractBalanced t opn cls =
     balanced_scan opn cls 0 False False (dropWhile (\<lambda>ch. ch \<noteq> opn) t)"

text \<open>
  \<open>extractJson\<close>. \<open>JSON.parse\<close> belongs to the platform and is a parameter: it maps a
  text to the value it denotes, or to \<open>None\<close> where it throws. \<open>None\<close> as the result of
  \<open>extractJson\<close> is the final \<open>return null\<close>.
\<close>

definition extractJson :: "(string \<Rightarrow> 'v option) \<Rightarrow> string \<Rightarrow> 'v option" where
  "extractJson JSON_parse t =
     (case (case fence_match t of None \<Rightarrow> None | Some captured \<Rightarrow> JSON_parse (trim captured)) of
        Some v \<Rightarrow> Some v
      | None \<Rightarrow>
          (case (case extractBalanced t (CHR 0x7B) (CHR 0x7D) of
                   None \<Rightarrow> None | Some r \<Rightarrow> JSON_parse r) of
             Some v \<Rightarrow> Some v
           | None \<Rightarrow>
               (case extractBalanced t (CHR 0x5B) (CHR 0x5D) of
                  None \<Rightarrow> None | Some r \<Rightarrow> JSON_parse r)))"

text \<open>
  A text with an untagged fence around \<open>{"a":1}\<close> followed by a \<open>json\<close> fence around
  \<open>{"b":2}\<close>, and a stand-in for \<open>JSON.parse\<close> on these two documents.
\<close>

definition doc_a :: string where
  "doc_a = [CHR 0x7B, CHR 0x22] @ ''a'' @ [CHR 0x22] @ '':1'' @ [CHR 0x7D]"

definition doc_b :: string where
  "doc_b = [CHR 0x7B, CHR 0x22] @ ''b'' @ [CHR 0x22] @ '':2'' @ [CHR 0x7D]"

definition two_fences :: string where
  "two_fences = fence @ [CHR 0x0A] @ doc_a @ [CHR 0x0A] @ fence @ [CHR 0x0A] @
                fence @ ''json'' @ [CHR 0x0A] @ doc_b @ [CHR 0x0A] @ fence"

definition parse_two_docs :: "string \<Rightarrow> string option" where
  "parse_two_docs s = (if s = doc_a then Some ''A'' else if s = doc_b then Some ''B'' else None)"

section \<open>Graph engine (orchestrator/dag.ts)\<close>

text \<open>
  The recursive helpers of \<open>dag.ts\<close> (\<open>getWave\<close>, \<open>visit\<close>, \<open>strongConnect\<close>) recurse
  along the dependency edges. Their models take a fuel that bounds the depth of the
  recursion; \<open>None\<close> says that the fuel ran out, which is the only way the model has of
  not returning. \<open>Inl\<close> is an error thrown (\<open>taskMap.get(id)!\<close> is \<open>undefined\<close> for an id
  that no task has, and reading its \<open>dependsOn\<close> throws a \<open>TypeError\<close>).
\<close>

text \<open>
  \<open>new Map(plan.tasks.map((t) => [t.id, t]))\<close>: of two tasks with the same id the later
  one wins.
\<close>

definition taskMap :: "TaskNode list \<Rightarrow> string \<Rightarrow> TaskNode option" where
  "taskMap ts = map_of (rev (map (\<lambda>t. (node_id t, t)) ts))"

text \<open>One step of a \<open>for\<close> loop whose body may throw or run out of fuel.\<close>

definition loop_step ::
  "('x \<Rightarrow> 's \<Rightarrow> (err + 's) option) \<Rightarrow> (err + 's) option \<Rightarrow> 'x \<Rightarrow> (err + 's) option" where
  "loop_step body acc x = (case acc of Some (Inr s) \<Rightarrow> body x s | other \<Rightarrow> other)"

definition for_each ::
  "('x \<Rightarrow> 's \<Rightarrow> (err + 's) option) \<Rightarrow> 'x list \<Rightarrow> 's \<Rightarrow> (err + 's) option" where
  "for_each body xs s = foldl (loop_step body) (Some (Inr s)) xs"

subsection \<open>topologicalSort\<close>

text \<open>The state of \<open>visit\<close> is the \<open>visited\<close> set and the \<open>result\<close> array.\<close>

fun visit ::
  "nat \<Rightarrow> (string \<Rightarrow> TaskNode option) \<Rightarrow> string \<Rightarrow> string set \<times> TaskNode list
    \<Rightarrow> (err + string set \<times> TaskNode list) option" where
  "visit 0 tm i st = None"
| "visit (Suc n) tm i st =
     (if i \<in> fst st then Some (Inr st)
      else
        (case tm i of
           None \<Rightarrow> Some (Inl ''TypeError: Cannot read properties of undefined'')
         | Some t \<Rightarrow>
             (case for_each (\<lambda>dep s. visit n tm dep s) (dependsOn t) (insert i (fst st), snd st) of
                Some (Inr st') \<Rightarrow> Some (Inr (fst st', snd st' @ [t]))
              | other \<Rightarrow> other)))"

definition topologicalSort :: "nat \<Rightarrow> TaskNode list \<Rightarrow> (err + TaskNode list) option" where
  "topologicalSort fuel ts =
     map_option (map_sum (\<lambda>e. e) snd)
       (for_each (\<lambda>t s. visit fuel (taskMap ts) (node_id t) s) ts ({}, []))"

subsection \<open>computeWaves\<close>

text \<open>
  \<open>getWave\<close> returns the wave and updates the memo table \<open>waveIndex\<close>; the state of its
  loop over the dependencies is the table and the list of waves computed so far
  (the array that \<open>Math.max\<close> is applied to).
\<close>

fun getWave ::
  "nat \<Rightarrow> (string \<Rightarrow> TaskNode option) \<Rightarrow> string \<Rightarrow> (string \<Rightarrow> nat option)
    \<Rightarrow> (err + nat \<times> (string \<Rightarrow> nat option)) option" where
  "getWave 0 tm i waveIndex = None"
| "getWave (Suc n) tm i waveIndex =
     (case waveIndex i of
        Some w \<Rightarrow> Some (Inr (w, waveIndex))
      | None \<Rightarrow>
          (case tm i of
             None \<Rightarrow> Some (Inl ''TypeError: Cannot read properties of undefined'')
           | Some t \<Rightarrow>
               if length (dependsOn t) = 0 then Some (Inr (0, waveIndex(i := Some 0)))
               else
                 (case for_each
                         (\<lambda>dep s. case getWave n tm dep (snd s) of
                                     None \<Rightarrow> None
                                   | Some (Inl e) \<Rightarrow> Some (Inl e)
                                   | Some (Inr (w, wi)) \<Rightarrow> Some (Inr (fst s @ [w], wi)))
                         (dependsOn t) ([], waveIndex) of
                    None \<Rightarrow> None
                  | Some (Inl e) \<Rightarrow> Some (Inl e)
                  | Some (Inr (depWaves, wi)) \<Rightarrow>
                      (let wave = Max (set depWaves) + 1
                       in Some (Inr (wave, wi(i := Some wave)))))))"

text \<open>
  The second loop of \<open>computeWaves\<close>: \<open>while (waves.length <= w) waves.push([])\<close>, then
  \<open>waves[w].push(task)\<close>.
\<close>

definition place_in_wave :: "nat \<Rightarrow> TaskNode \<Rightarrow> TaskNode list list \<Rightarrow> TaskNode list list" where
  "place_in_wave w t waves =
     (let padded = waves @ replicate (Suc w - length waves) []
      in padded[w := padded ! w @ [t]])"

fun place_all ::
  "(string \<Rightarrow> nat option) \<Rightarrow> TaskNode list \<Rightarrow> TaskNode list list \<Rightarrow> TaskNode list list" where
  "place_all waveIndex [] waves = waves"
| "place_all waveIndex (t # rest) waves =
     (case waveIndex (node_id t) of
        None \<Rightarrow> place_all waveIndex rest waves
      | Some w \<Rightarrow> place_all waveIndex rest (place_in_wave w t waves))"

definition computeWaves :: "nat \<Rightarrow> TaskNode list \<Rightarrow> (err + TaskNode list list) option" where
  "computeWaves fuel ts =
     (case for_each (\<lambda>t wi. map_option (map_sum (\<lambda>e. e) snd)
                               (getWave fuel (taskMap ts) (node_id t) wi))
             ts (\<lambda>i. None) of
        None \<Rightarrow> None
      | Some (Inl e) \<Rightarrow> Some (Inl e)
      | Some (Inr waveIndex) \<Rightarrow> Some (Inr (place_all waveIndex ts [])))"

subsection \<open>detectCycles and validateDag\<close>

text \<open>
  The variables \<open>strongConnect\<close> closes over. The stack has its top at the head of the
  list. \<open>num\<close> reads an entry of \<open>indices\<close> or \<open>lowlinks\<close> at a point where the source
  asserts it present (\<open>lowlinks.get(id)!\<close>).
\<close>

record tarjan =
  index :: nat
  indices :: "string \<Rightarrow> nat option"
  lowlinks :: "string \<Rightarrow> nat option"
  onStack :: "string set"
  stack :: "string list"
  cycleNodes :: "string list"

definition num :: "nat option \<Rightarrow> nat" where
  "num x = (case x of None \<Rightarrow> 0 | Some n \<Rightarrow> n)"

definition adjacency :: "TaskNode list \<Rightarrow> string \<Rightarrow> string list option" where
  "adjacency ts = map_of (rev (map (\<lambda>t. (node_id t, dependsOn t)) ts))"

text \<open>\<open>adj.get(id) ?? []\<close>.\<close>

definition successors :: "(string \<Rightarrow> string list option) \<Rightarrow> string \<Rightarrow> string list" where
  "successors adj i = (case adj i of None \<Rightarrow> [] | Some ds \<Rightarrow> ds)"

text \<open>
  The \<open>do ... while (w !== id)\<close> loop: the popped component, in the order popped, and
  the rest of the stack. On a stack that does not hold \<open>id\<close> the loop never ends
  (\<open>stack.pop()\<close> keeps answering \<open>undefined\<close>): \<open>None\<close>.
\<close>

fun pop_component :: "string \<Rightarrow> string list \<Rightarrow> (string list \<times> string list) option" where
  "pop_component i [] = None"
| "pop_component i (w # rest) =
     (if w = i then Some ([w], rest)
      else (case pop_component i rest of
              None \<Rightarrow> None
            | Some (popped, rest') \<Rightarrow> Some (w # popped, rest')))"

definition enter :: "string \<Rightarrow> tarjan \<Rightarrow> tarjan" where
  "enter i s =
     s\<lparr>indices := (indices s)(i := Some (index s)),
       lowlinks := (lowlinks s)(i := Some (index s)),
       index := index s + 1,
       stack := i # stack s,
       onStack := insert i (onStack s)\<rparr>"

definition lower :: "string \<Rightarrow> nat \<Rightarrow> tarjan \<Rightarrow> tarjan" where
  "lower i n s = s\<lparr>lowlinks := (lowlinks s)(i := Some (min (num (lowlinks s i)) n))\<rparr>"

definition finish :: "string \<Rightarrow> tarjan \<Rightarrow> tarjan option" where
  "finish i s =
     (if lowlinks s i = indices s i then
        (case pop_component i (stack s) of
           None \<Rightarrow> None
         | Some (component, rest) \<Rightarrow>
             Some (s\<lparr>stack := rest,
                     onStack := onStack s - set component,
                     cycleNodes := (if length component > 1 then cycleNodes s @ component
                                    else cycleNodes s)\<rparr>))
      else Some s)"

fun strongConnect ::
  "nat \<Rightarrow> (string \<Rightarrow> string list option) \<Rightarrow> string \<Rightarrow> tarjan \<Rightarrow> (err + tarjan) option" where
  "strongConnect 0 adj i s = None"
| "strongConnect (Suc n) adj i s =
     (case for_each
             (\<lambda>dep s. if indices s dep = None then
                         (case strongConnect n adj dep s of
                            Some (Inr s') \<Rightarrow> Some (Inr (lower i (num (lowlinks s' dep)) s'))
                          | other \<Rightarrow> other)
                       else if dep \<in> onStack s then Some (Inr (lower i (num (indices s dep)) s))
                       else Some (Inr s))
             (successors adj i) (enter i s) of
        Some (Inr s') \<Rightarrow> map_option Inr (finish i s')
      | other \<Rightarrow> other)"

definition tarjan0 :: tarjan where
  "tarjan0 = \<lparr>index = 0, indices = (\<lambda>i. None), lowlinks = (\<lambda>i. None), onStack = {},
              stack = [], cycleNodes = []\<rparr>"

definition detectCycles :: "nat \<Rightarrow> TaskNode list \<Rightarrow> (err + string list) option" where
  "detectCycles fuel ts =
     map_option (map_sum (\<lambda>e. e) cycleNodes)
       (for_each (\<lambda>t s. if indices s (node_id t) = None
                         then strongConnect fuel (adjacency ts) (node_id t) s
                         else Some (Inr s))
          ts tarjan0)"

text \<open>\<open>xs.join(sep)\<close>.\<close>

fun join :: "string \<Rightarrow> string list \<Rightarrow> string" where
  "join sep [] = []"
| "join sep [x] = x"
| "join sep (x # y # rest) = x @ sep @ join sep (y # rest)"

fun duplicate_errors :: "string set \<Rightarrow> TaskNode list \<Rightarrow> string list" where
  "duplicate_errors seen [] = []"
| "duplicate_errors seen (t # rest) =
     (if node_id t \<in> seen
        then [''Duplicate task ID: '' @ [CHR 0x22] @ node_id t @ [CHR 0x22]] else [])
     @ duplicate_errors (insert (node_id t) seen) rest"

definition missing_errors :: "string set \<Rightarrow> TaskNode list \<Rightarrow> string list" where
  "missing_errors ids ts =
     concat (map (\<lambda>t. concat (map (\<lambda>dep. if dep \<in> ids then []
        else [''Task '' @ [CHR 0x22] @ node_id t @ [CHR 0x22] @ '' depends on unknown task '' @
              [CHR 0x22] @ dep @ [CHR 0x22]]) (dependsOn t))) ts)"

definition cycle_errors :: "string list \<Rightarrow> string list" where
  "cycle_errors nodes =
     (if length nodes > 0 then [''Cycle detected involving tasks: '' @ join '', '' nodes] else [])"

record ValidationResult =
  valid :: bool
  errors :: "string list"

definition validateDag :: "nat \<Rightarrow> TaskNode list \<Rightarrow> (err + ValidationResult) option" where
  "validateDag fuel ts =
     (case detectCycles fuel ts of
        None \<Rightarrow> None
      | Some (Inl e) \<Rightarrow> Some (Inl e)
      | Some (Inr nodes) \<Rightarrow>
          (let errs = duplicate_errors {} ts @ missing_errors (set (map node_id ts)) ts @
                      cycle_errors nodes
           in Some (Inr \<lparr>valid = (length errs = 0), errors = errs\<rparr>)))"

subsection \<open>The dependency graph of a task list\<close>

text \<open>
  The edges of the \<open>dependsOn\<close> relation, from a task's id to each id it depends on, and
  the precondition under which \<open>validateDag\<close> accepts a list: unique ids, every
  dependency the id of a task, and no cycle.
\<close>

definition dep_edges :: "TaskNode list \<Rightarrow> (string \<times> string) set" where
  "dep_edges ts = {(i, d). \<exists>t \<in> set ts. node_id t = i \<and> d \<in> set (dependsOn t)}"

definition well_formed :: "TaskNode list \<Rightarrow> bool" where
  "well_formed ts \<longleftrightarrow>
     distinct (map node_id ts) \<and>
     (\<forall>t \<in> set ts. set (dependsOn t) \<subseteq> set (map node_id ts)) \<and>
     acyclic (dep_edges ts)"

text \<open>
  A list of tasks lists dependencies first when every dependency of each task is the id of
  a task earlier in the list (or in \<open>seen\<close>).
\<close>

fun deps_first :: "string set \<Rightarrow> TaskNode list \<Rightarrow> bool" where
  "deps_first seen [] = True"
| "deps_first seen (t # rest) =
     (set (dependsOn t) \<subseteq> seen \<and> deps_first (insert (node_id t) seen) rest)"

text \<open>
  The same graph read off a lookup table of tasks, the conditions on the table that the
  recursions rely on, and the invariant of \<open>visit\<close>: \<open>visited\<close> consists of the ids in
  \<open>result\<close> and the ids \<open>S\<close> whose visit is in progress, and \<open>result\<close> lists each
  task once, as the table has it, after its dependencies.
\<close>

definition tm_edges :: "(string \<Rightarrow> TaskNode option) \<Rightarrow> (string \<times> string) set" where
  "tm_edges tm = {(i, d). \<exists>t. tm i = Some t \<and> d \<in> set (dependsOn t)}"

definition tm_ok :: "(string \<Rightarrow> TaskNode option) \<Rightarrow> bool" where
  "tm_ok tm \<longleftrightarrow>
     finite (dom tm) \<and>
     (\<forall>i t. tm i = Some t \<longrightarrow> node_id t = i \<and> set (dependsOn t) \<subseteq> dom tm) \<and>
     acyclic (tm_edges tm)"

definition tinv ::
  "(string \<Rightarrow> TaskNode option) \<Rightarrow> string set \<Rightarrow> string set \<times> TaskNode list \<Rightarrow> bool" where
  "tinv tm S st \<longleftrightarrow>
     fst st = node_id ` set (snd st) \<union> S \<and>
     S \<inter> node_id ` set (snd st) = {} \<and>
     distinct (map node_id (snd st)) \<and>
     (\<forall>t \<in> set (snd st). tm (node_id t) = Some t) \<and>
     deps_first {} (snd st)"

text \<open>
  A dependency chain is a list of task ids in which each id depends on the next. The
  invariant of \<open>getWave\<close>: every entry of the memo table belongs to a task whose
  dependencies all have entries, and is 0 for a task without dependencies and one more
  than the largest entry of its dependencies otherwise.
\<close>

fun is_chain :: "(string \<times> string) set \<Rightarrow> string list \<Rightarrow> bool" where
  "is_chain E [] = True"
| "is_chain E [x] = True"
| "is_chain E (x # y # rest) = ((x, y) \<in> E \<and> is_chain E (y # rest))"

definition dep_chain :: "TaskNode list \<Rightarrow> string list \<Rightarrow> bool" where
  "dep_chain ts c \<longleftrightarrow> set c \<subseteq> set (map node_id ts) \<and> is_chain (dep_edges ts) c"

definition wave_ok :: "(string \<Rightarrow> TaskNode option) \<Rightarrow> (string \<Rightarrow> nat option) \<Rightarrow> bool" where
  "wave_ok tm wi \<longleftrightarrow>
     (\<forall>i w. wi i = Some w \<longrightarrow>
        (\<exists>t. tm i = Some t \<and> (\<forall>d \<in> set (dependsOn t). wi d \<noteq> None) \<and>
             w = (if dependsOn t = [] then 0
                  else Suc (Max ((\<lambda>d. the (wi d)) ` set (dependsOn t))))))"

text \<open>The number of groups needed for the tasks \<open>xs\<close> under the memo table \<open>wi\<close>.\<close>

definition height :: "(string \<Rightarrow> nat option) \<Rightarrow> TaskNode list \<Rightarrow> nat" where
  "height wi xs = Max (insert 0 ((\<lambda>t. Suc (the (wi (node_id t)))) ` set xs))"

text \<open>
  The body of the loop of \<open>getWave\<close> over the dependencies, and the body of the first
  loop of \<open>computeWaves\<close>, by name.
\<close>

definition wave_body ::
  "nat \<Rightarrow> (string \<Rightarrow> TaskNode option) \<Rightarrow> string \<Rightarrow> nat list \<times> (string \<Rightarrow> nat option)
    \<Rightarrow> (err + nat list \<times> (string \<Rightarrow> nat option)) option" where
  "wave_body n tm = (\<lambda>dep s. case getWave n tm dep (snd s) of
                                     None \<Rightarrow> None
                                   | Some (Inl e) \<Rightarrow> Some (Inl e)
                                   | Some (Inr (w, wi)) \<Rightarrow> Some (Inr (fst s @ [w], wi)))"

definition wave_top ::
  "nat \<Rightarrow> (string \<Rightarrow> TaskNode option) \<Rightarrow> TaskNode \<Rightarrow> (string \<Rightarrow> nat option)
    \<Rightarrow> (err + (string \<Rightarrow> nat option)) option" where
  "wave_top n tm = (\<lambda>t wi. map_option (map_sum (\<lambda>e. e) snd) (getWave n tm (node_id t) wi))"

text \<open>
  The graph that \<open>detectCycles\<close> walks: the edges of the adjacency table. The body of
  the loop of \<open>strongConnect\<close> over the successors, by name. The invariant that
  \<open>strongConnect\<close> keeps on a graph without cycles: the stack holds visited nodes only
  and mirrors \<open>onStack\<close>, every index handed out is below the counter, and no cycle
  node has been recorded.
\<close>

definition adj_edges :: "(string \<Rightarrow> string list option) \<Rightarrow> (string \<times> string) set" where
  "adj_edges adj = {(i, d). d \<in> set (successors adj i)}"

definition sc_body ::
  "nat \<Rightarrow> (string \<Rightarrow> string list option) \<Rightarrow> string \<Rightarrow> string \<Rightarrow> tarjan \<Rightarrow> (err + tarjan) option" where
  "sc_body n adj i =
     (\<lambda>dep s. if indices s dep = None then
                 (case strongConnect n adj dep s of
                    Some (Inr s') \<Rightarrow> Some (Inr (lower i (num (lowlinks s' dep)) s'))
                  | other \<Rightarrow> other)
               else if dep \<in> onStack s then Some (Inr (lower i (num (indices s dep)) s))
               else Some (Inr s))"

definition ainv :: "tarjan \<Rightarrow> bool" where
  "ainv s \<longleftrightarrow>
     onStack s = set (stack s) \<and> set (stack s) \<subseteq> dom (indices s) \<and> cycleNodes s = [] \<and>
     (\<forall>x k. indices s x = Some k \<longrightarrow> k < index s)"

text \<open>
  What a call \<open>strongConnect(i)\<close> from state \<open>s\<close> leaves behind on a graph without
  cycles (\<open>apost\<close>), and what the loop over the successors of \<open>i\<close> keeps (\<open>aloop\<close>): the
  stack is as before, every earlier entry of \<open>indices\<close> and \<open>lowlinks\<close> is untouched and
  the low link of \<open>i\<close> stays at its own index.
\<close>

definition apost :: "tarjan \<Rightarrow> string \<Rightarrow> tarjan \<Rightarrow> bool" where
  "apost s i s' \<longleftrightarrow>
     ainv s' \<and> stack s' = stack s \<and> dom (indices s) \<subseteq> dom (indices s') \<and>
     i \<in> dom (indices s') \<and>
     (\<forall>x\<in>dom (indices s). lowlinks s' x = lowlinks s x \<and> indices s' x = indices s x) \<and>
     lowlinks s' i = Some (index s) \<and> index s < index s'"

definition aloop :: "string \<Rightarrow> string list \<Rightarrow> nat \<Rightarrow> tarjan \<Rightarrow> tarjan \<Rightarrow> bool" where
  "aloop i rest k sk sk' \<longleftrightarrow>
     ainv sk' \<and> stack sk' = i # rest \<and> dom (indices sk) \<subseteq> dom (indices sk') \<and>
     (\<forall>x\<in>dom (indices sk). x \<noteq> i \<longrightarrow> lowlinks sk' x = lowlinks sk x) \<and>
     (\<forall>x\<in>dom (indices sk). indices sk' x = indices sk x) \<and>
     lowlinks sk' i = Some k \<and> index sk \<le> index sk'"

text \<open>The body of the loop of \<open>detectCycles\<close> over the tasks, by name.\<close>

definition top_body :: "nat \<Rightarrow> TaskNode list \<Rightarrow> TaskNode \<Rightarrow> tarjan \<Rightarrow> (err + tarjan) option" where
  "top_body fuel ts = (\<lambda>t s. if indices s (node_id t) = None
                               then strongConnect fuel (adjacency ts) (node_id t) s
                               else Some (Inr s))"

text \<open>
  For graphs with cycles. A node is \<open>popped\<close> once it has an index and has left the
  stack. A node is on a \<open>nontrivial\<close> cycle of the adjacency table when one of its
  successors is another node that reaches it. The invariant \<open>cinv\<close> of \<open>detectCycles\<close>:
  the stack mirrors \<open>onStack\<close>, has no duplicates and holds indexed nodes only, every
  index is below the counter, the popped nodes are closed under successors, and every
  popped node on a nontrivial cycle has been recorded in \<open>cycleNodes\<close>.
\<close>

definition popped :: "tarjan \<Rightarrow> string set" where
  "popped s = dom (indices s) - set (stack s)"

definition nontrivial :: "(string \<Rightarrow> string list option) \<Rightarrow> string set" where
  "nontrivial adj = {x. \<exists>z\<in>set (successors adj x). z \<noteq> x \<and> (z, x) \<in> (adj_edges adj)\<^sup>*}"

definition cinv :: "(string \<Rightarrow> string list option) \<Rightarrow> tarjan \<Rightarrow> bool" where
  "cinv adj s \<longleftrightarrow>
     onStack s = set (stack s) \<and> distinct (stack s) \<and> set (stack s) \<subseteq> dom (indices s) \<and>
     (\<forall>x k. indices s x = Some k \<longrightarrow> k < index s) \<and>
     (\<forall>y\<in>popped s. set (successors adj y) \<subseteq> popped s) \<and>
     popped s \<inter> nontrivial adj \<subseteq> set (cycleNodes s)"

text \<open>
  \<open>extends s s'\<close>: the later state keeps every index of the earlier one and numbers the
  new nodes from the earlier counter on.
\<close>

definition extends :: "tarjan \<Rightarrow> tarjan \<Rightarrow> bool" where
  "extends s s' \<longleftrightarrow>
     dom (indices s) \<subseteq> dom (indices s') \<and>
     (\<forall>x\<in>dom (indices s). indices s' x = indices s x) \<and>
     (\<forall>x\<in>dom (indices s') - dom (indices s). index s \<le> num (indices s' x)) \<and>
     index s \<le> index s'"

text \<open>
  The nodes \<open>new\<close> that a call leaves on the stack above \<open>rest\<close>: they are new, all their
  successors have an index, and \<open>low\<close> is at most the index of each of their successors
  in \<open>rest\<close>. \<open>qlow\<close>: a low link is the node's own index or the index of a node that
  was on the stack below it.
\<close>

definition seg_ok ::
  "(string \<Rightarrow> string list option) \<Rightarrow> tarjan \<Rightarrow> string list \<Rightarrow> nat \<Rightarrow> tarjan \<Rightarrow> string list \<Rightarrow> bool" where
  "seg_ok adj s rest low s' new \<longleftrightarrow>
     set new \<inter> dom (indices s) = {} \<and>
     (\<forall>x\<in>set new. set (successors adj x) \<subseteq> dom (indices s')) \<and>
     (\<forall>x\<in>set new. \<forall>w\<in>set (successors adj x). w \<in> set rest \<longrightarrow> low \<le> num (indices s w))"

definition qlow :: "tarjan \<Rightarrow> string list \<Rightarrow> nat \<Rightarrow> nat \<Rightarrow> bool" where
  "qlow s rest k l \<longleftrightarrow> l = k \<or> (\<exists>y\<in>set rest. indices s y = Some l)"

text \<open>
  What a call \<open>strongConnect(i)\<close> from state \<open>s\<close> leaves behind on any graph (\<open>cpost\<close>),
  the state right after \<open>i\<close> has been pushed (\<open>centry\<close>), and what the loop over the
  successors of \<open>i\<close> keeps once the successors in \<open>D\<close> have been handled (\<open>cloop\<close>).
\<close>

definition cpost :: "(string \<Rightarrow> string list option) \<Rightarrow> tarjan \<Rightarrow> string \<Rightarrow> tarjan \<Rightarrow> bool" where
  "cpost adj s i s' \<longleftrightarrow>
     cinv adj s' \<and> extends s s' \<and> index s < index s' \<and> i \<in> dom (indices s') \<and>
     (\<forall>x\<in>dom (indices s). lowlinks s' x = lowlinks s x) \<and>
     lowlinks s' i \<noteq> None \<and>
     qlow s (stack s) (index s) (num (lowlinks s' i)) \<and>
     (num (lowlinks s' i) = index s \<longrightarrow> stack s' = stack s) \<and>
     (\<exists>new. stack s' = new @ stack s \<and> seg_ok adj s (stack s) (num (lowlinks s' i)) s' new)"

definition centry :: "string \<Rightarrow> string list \<Rightarrow> nat \<Rightarrow> tarjan \<Rightarrow> bool" where
  "centry i rest k s0 \<longleftrightarrow>
     indices s0 i = Some k \<and> index s0 = Suc k \<and>
     (\<forall>y\<in>set rest. \<exists>ky. indices s0 y = Some ky \<and> ky < k)"

definition cloop ::
  "(string \<Rightarrow> string list option) \<Rightarrow> string \<Rightarrow> string list \<Rightarrow> nat \<Rightarrow> tarjan \<Rightarrow> string set \<Rightarrow> tarjan \<Rightarrow> bool" where
  "cloop adj i rest k s0 D sk \<longleftrightarrow>
     cinv adj sk \<and> extends s0 sk \<and>
     (\<forall>x\<in>dom (indices s0). x \<noteq> i \<longrightarrow> lowlinks sk x = lowlinks s0 x) \<and>
     lowlinks sk i \<noteq> None \<and>
     num (lowlinks sk i) \<le> k \<and>
     qlow s0 rest k (num (lowlinks sk i)) \<and>
     D \<subseteq> dom (indices sk) \<and>
     (\<forall>d\<in>D. d \<in> set rest \<longrightarrow> num (lowlinks sk i) \<le> num (indices s0 d)) \<and>
     (\<exists>seg. stack sk = seg @ i # rest \<and> seg_ok adj s0 rest (num (lowlinks sk i)) sk seg)"

text \<open>
  The tasks on a cycle of the \<open>dependsOn\<close> relation that passes through another task,
  and what it is for an error message to mention a task id.
\<close>

definition on_cycle :: "TaskNode list \<Rightarrow> string set" where
  "on_cycle ts = {x. \<exists>y. y \<noteq> x \<and> (x, y) \<in> (dep_edges ts)\<^sup>+ \<and> (y, x) \<in> (dep_edges ts)\<^sup>+}"

definition mentions :: "string \<Rightarrow> string \<Rightarrow> bool" where
  "mentions msg i \<longleftrightarrow> (\<exists>pre post. msg = pre @ i @ post)"

section \<open>Planning phase: polling (orchestrator/planner.ts)\<close>

text \<open>
  The planner's \<open>pollForCompletion\<close>. Its event loop keeps, besides the state of the
  integrator's loop, \<open>executionError\<close>, which like \<open>executionComplete\<close> is declared
  inside the \<open>for (;;)\<close> body and so starts as \<open>null\<close> in every round.
\<close>

fun pl_scan_event ::
  "string list \<times> string list \<times> bool \<times> bool \<times> string option \<Rightarrow> AgentEvent
    \<Rightarrow> string list \<times> string list \<times> bool \<times> bool \<times> string option" where
  "pl_scan_event (seen, chunks, hasStarted, executionComplete, executionError) event =
     (if ev_id event \<in> set seen
        then (seen, chunks, hasStarted, executionComplete, executionError)
      else
        (let seen' = seen @ [ev_id event];
             data = ev_data event;
             tok = (ev_type event = ''token'' \<and> content data \<noteq> None);
             chunks' = (case content data of
                          Some s \<Rightarrow> if tok then chunks @ [s] else chunks
                        | None \<Rightarrow> chunks);
             hasStarted' = (hasStarted \<or> tok \<or> ev_type event = ''ready'');
             executionComplete' = (executionComplete \<or> ev_type event = ''execution_complete'');
             executionError1 =
               (if ev_type event = ''execution_complete'' \<and> success data = Some False \<and>
                   truthy (ev_error data)
                then ev_error data else executionError);
             executionError2 =
               (if ev_type event = ''error'' \<and> truthy (ev_error data)
                then ev_error data else executionError1)
         in (seen', chunks', hasStarted', executionComplete', executionError2)))"

fun pl_pollForCompletion ::
  "nat \<Rightarrow> Client \<Rightarrow> World \<Rightarrow> string list \<Rightarrow> string list \<Rightarrow> bool
    \<Rightarrow> ((err + string) \<times> World) option" where
  "pl_pollForCompletion 0 c w seen chunks hasStarted = None"
| "pl_pollForCompletion (Suc fuel) c w seen chunks hasStarted =
     (case getSession c w of
        (Inl e, w1) \<Rightarrow> Some (Inl e, w1)
      | (Inr session, w1) \<Rightarrow>
          (let hasStarted1 = (hasStarted \<or> isProcessing session) in
           case getEvents c w1 of
             (Inl e, w2) \<Rightarrow> Some (Inl e, w2)
           | (Inr events, w2) \<Rightarrow>
               (case foldl pl_scan_event (seen, chunks, hasStarted1, False, None) events of
                  (seen', chunks', hasStarted', executionComplete, executionError) \<Rightarrow>
                    if executionComplete then
                      (if truthy executionError
                         then Some (Inl (''Agent execution failed: '' @ or_else executionError []), w2)
                       else Some (Inr (concat chunks'), w2))
                    else if hasStarted' \<and> sandboxStatus session = ''stopped''
                      then Some (Inr (concat chunks'), w2)
                    else pl_pollForCompletion fuel c w2 seen' chunks' hasStarted')))"

section \<open>Integration phase (orchestrator/integrator.ts)\<close>

text \<open>
  One pass over the fetched events of a poll, as the \<open>for (const event of events)\<close> loop
  of \<open>pollForCompletion\<close>: the loop state is the seen-set of event ids, the token chunks,
  \<open>hasStarted\<close> and \<open>executionComplete\<close>.
\<close>

fun int_scan_event ::
  "string list \<times> string list \<times> bool \<times> bool \<Rightarrow> AgentEvent
    \<Rightarrow> string list \<times> string list \<times> bool \<times> bool" where
  "int_scan_event (seen, chunks, hasStarted, executionComplete) event =
     (if ev_id event \<in> set seen then (seen, chunks, hasStarted, executionComplete)
      else
        (let seen' = seen @ [ev_id event];
             tok = (ev_type event = ''token'' \<and> content (ev_data event) \<noteq> None);
             chunks' = (case content (ev_data event) of
                          Some s \<Rightarrow> if tok then chunks @ [s] else chunks
                        | None \<Rightarrow> chunks);
             hasStarted' = (hasStarted \<or> tok \<or> ev_type event = ''ready'');
             executionComplete' = (executionComplete \<or> ev_type event = ''execution_complete'')
         in (seen', chunks', hasStarted', executionComplete')))"

text \<open>
  The \<open>for (;;)\<close> loop of the integrator's \<open>pollForCompletion\<close>. Each round reads the
  session and the events; an error thrown by either call leaves the loop and the function
  (\<open>Inl\<close>). The loop has no bound of its own: the fuel counts the rounds the model may
  run, and \<open>None\<close> says that the loop was still polling when the fuel ran out.
\<close>

fun int_pollForCompletion ::
  "nat \<Rightarrow> Client \<Rightarrow> World \<Rightarrow> string list \<Rightarrow> string list \<Rightarrow> bool
    \<Rightarrow> ((err + string) \<times> World) option" where
  "int_pollForCompletion 0 c w seen chunks hasStarted = None"
| "int_pollForCompletion (Suc fuel) c w seen chunks hasStarted =
     (case getSession c w of
        (Inl e, w1) \<Rightarrow> Some (Inl e, w1)
      | (Inr session, w1) \<Rightarrow>
          (let hasStarted1 = (hasStarted \<or> isProcessing session) in
           case getEvents c w1 of
             (Inl e, w2) \<Rightarrow> Some (Inl e, w2)
           | (Inr events, w2) \<Rightarrow>
               (case foldl int_scan_event (seen, chunks, hasStarted1, False) events of
                  (seen', chunks', hasStarted', executionComplete) \<Rightarrow>
                    if executionComplete then Some (Inr (concat chunks'), w2)
                    else if hasStarted' \<and> sandboxStatus session = ''stopped''
                      then Some (Inr (concat chunks'), w2)
                    else int_pollForCompletion fuel c w2 seen' chunks' hasStarted')))"

record IntegrationResult =
  res_branchName :: "string option"
  res_prUrl :: "string option"

record CompletedTask =
  ct_taskId :: string
  ct_title :: string
  ct_summary :: string
  ct_branchName :: "string option"

text \<open>
  \<open>Object.values(state.tasks).filter(...)\<close>: the executions that count as completed.
\<close>

definition completed_with_branch :: "ProjectState \<Rightarrow> TaskExecution list" where
  "completed_with_branch state =
     filter (\<lambda>t. status t = TaskCompleted \<and> truthy (branchName t)) (map snd (tasks state))"

text \<open>
  The \<open>.map(...)\<close> that follows, for a plan that is present: the title falls back to the
  task id when the plan has no node of that id or the node's title is empty.
\<close>

definition completed_info :: "Plan \<Rightarrow> TaskExecution \<Rightarrow> CompletedTask" where
  "completed_info p t =
     \<lparr>ct_taskId = taskId t,
      ct_title = or_else (map_option title (find (\<lambda>n. node_id n = taskId t) (plan_tasks p)))
                   (taskId t),
      ct_summary = or_else (summary t) [],
      ct_branchName = branchName t\<rparr>"

definition find_pr_artifact :: "SessionArtifact list \<Rightarrow> SessionArtifact option" where
  "find_pr_artifact artifacts = find (\<lambda>a. art_type a = ''pr'' \<and> truthy (art_url a)) artifacts"

text \<open>\<open>prArtifact?.url || null\<close>.\<close>

definition pr_url_of :: "SessionArtifact option \<Rightarrow> string option" where
  "pr_url_of a = (case a of None \<Rightarrow> None
                  | Some x \<Rightarrow> (if truthy (art_url x) then art_url x else None))"

text \<open>
  \<open>runIntegration\<close>. The result pairs the outcome (\<open>Inl\<close> the message of the error
  raised, \<open>Inr\<close> the returned \<open>IntegrationResult\<close>) with the project state and the world
  at that point; \<open>None\<close> when the polling loop did not finish within the fuel.
  \<open>state.plan!\<close> is read inside the \<open>.map\<close> callback only, so a missing plan throws a
  \<open>TypeError\<close> exactly when a completed task reaches the callback
  (\<open>collect_completed\<close>). \<open>t.branchName!\<close> is a compile-time assertion: the value
  passes through as it is.
\<close>

definition collect_completed :: "ProjectState \<Rightarrow> err + CompletedTask list" where
  "collect_completed state =
     (case completed_with_branch state of
        [] \<Rightarrow> Inr []
      | t # ts \<Rightarrow>
          (case plan state of
             None \<Rightarrow> Inl ''TypeError: Cannot read properties of null''
           | Some p \<Rightarrow> Inr (map (completed_info p) (t # ts))))"

definition integration_finish ::
  "Client \<Rightarrow> World \<Rightarrow> ProjectState
    \<Rightarrow> ((err + IntegrationResult) \<times> ProjectState \<times> World) option" where
  "integration_finish c w state =
     (case getSession c w of
        (Inl e, w1) \<Rightarrow> Some (Inl e, state, w1)
      | (Inr session, w1) \<Rightarrow>
          (case getArtifacts c w1 of
             (Inl e, w2) \<Rightarrow> Some (Inl e, state, w2)
           | (Inr artifacts, w2) \<Rightarrow>
               (let result = \<lparr>res_branchName = ss_branchName session,
                               res_prUrl = pr_url_of (find_pr_artifact artifacts)\<rparr>;
                    state1 = state\<lparr>integration := (integration state)
                                \<lparr>in_status := StCompleted,
                                 mergedBranch := res_branchName result,
                                 prUrl := res_prUrl result\<rparr>,
                              phase := PhaseCompleted\<rparr>
                in case persist c w2 state1 of
                     (state2, w3) \<Rightarrow> Some (Inr result, state2, w3))))"

definition runIntegration ::
  "nat \<Rightarrow> Client \<Rightarrow> World \<Rightarrow> ProjectState
    \<Rightarrow> ((err + IntegrationResult) \<times> ProjectState \<times> World) option" where
  "runIntegration fuel c w state0 =
     (case persist c w (state0\<lparr>phase := PhaseIntegrating,
             integration := (integration state0)\<lparr>in_status := StRunning\<rparr>\<rparr>) of
        (state, w1) \<Rightarrow>
          (case collect_completed state of
             Inl e \<Rightarrow> Some (Inl e, state, w1)
           | Inr [] \<Rightarrow>
               (case persist c w1 (state\<lparr>integration := (integration state)
                         \<lparr>in_status := StFailed,
                          in_error := Some ''No completed tasks to integrate''\<rparr>,
                       phase := PhaseFailed\<rparr>) of
                  (state1, w2) \<Rightarrow> Some (Inl ''No completed tasks to integrate'', state1, w2))
           | Inr [only] \<Rightarrow>
               (case persist c w1 (state\<lparr>integration := (integration state)
                         \<lparr>in_status := StCompleted, mergedBranch := ct_branchName only\<rparr>,
                       phase := PhaseCompleted\<rparr>) of
                  (state1, w2) \<Rightarrow>
                    Some (Inr \<lparr>res_branchName = ct_branchName only, res_prUrl = None\<rparr>,
                          state1, w2))
           | Inr completedTasks \<Rightarrow>
               (case createSession c w1 of
                  (Inl e, w2) \<Rightarrow> Some (Inl e, state, w2)
                | (Inr sid, w2) \<Rightarrow>
                    (case persist c w2 (state\<lparr>integration := (integration state)
                              \<lparr>in_sessionId := Some sid\<rparr>\<rparr>) of
                       (state1, w3) \<Rightarrow>
                         (case sendPrompt c w3 of
                            (Inl e, w4) \<Rightarrow> Some (Inl e, state1, w4)
                          | (Inr u, w4) \<Rightarrow>
                              (case int_pollForCompletion fuel c w4 [] [] False of
                                 None \<Rightarrow> None
                               | Some (Inl e, w5) \<Rightarrow> Some (Inl e, state1, w5)
                               | Some (Inr text, w5) \<Rightarrow>
                                   integration_finish c w5 state1))))))"

section \<open>Worker prompt helpers (prompts/worker.ts)\<close>

text \<open>
  \<open>slugify\<close>: lower-case the text, replace every maximal run of characters outside
  \<open>[a-z0-9]\<close> by one hyphen, remove a hyphen at the start and one at the end, and keep
  the first 40 characters. Characters are the 8-bit characters of HOL; \<open>toLowerCase\<close> is
  modelled on the ASCII letters.
\<close>

definition lower_char :: "char \<Rightarrow> char" where
  "lower_char ch =
     (let n = (of_char ch :: nat) in if 65 \<le> n \<and> n \<le> 90 then char_of (n + 32) else ch)"

definition is_slug_char :: "char \<Rightarrow> bool" where
  "is_slug_char ch =
     (let n = (of_char ch :: nat) in (97 \<le> n \<and> n \<le> 122) \<or> (48 \<le> n \<and> n \<le> 57))"

text \<open>The flag says that the scan is inside a run that has already produced its hyphen.\<close>

fun hyphenate :: "bool \<Rightarrow> string \<Rightarrow> string" where
  "hyphenate inRun [] = []"
| "hyphenate inRun (ch # rest) =
     (if is_slug_char ch then ch # hyphenate False rest
      else if inRun then hyphenate True rest
      else CHR ''-'' # hyphenate True rest)"

definition strip_edge_hyphens :: "string \<Rightarrow> string" where
  "strip_edge_hyphens s =
     (let s1 = (case s of [] \<Rightarrow> [] | ch # rest \<Rightarrow> if ch = CHR ''-'' then rest else s)
      in if s1 \<noteq> [] \<and> last s1 = CHR ''-'' then butlast s1 else s1)"

definition slugify :: "string \<Rightarrow> string" where
  "slugify t = take 40 (strip_edge_hyphens (hyphenate False (map lower_char t)))"

definition expectedBranchName :: "TaskNode \<Rightarrow> string" where
  "expectedBranchName t = ''oi/'' @ node_id t @ ''-'' @ slugify (title t)"

section \<open>Execution phase (orchestrator/executor.ts)\<close>

text \<open>The loop looks tasks up in \<open>taskMap\<close>, built from the plan as in \<open>dag.ts\<close>.\<close>

text \<open>A reading of the clock.\<close>

definition now :: "Client \<Rightarrow> World \<Rightarrow> int \<times> World" where
  "now c w = (dateNow c (n_dateNow w), w\<lparr>n_dateNow := Suc (n_dateNow w)\<rparr>)"

text \<open>
  The executions are objects shared between \<open>state.tasks\<close> and the lists the loop
  filters out of it; a mutation of one of them is an update of the entry under its key.
\<close>

definition upd_task ::
  "string \<Rightarrow> (TaskExecution \<Rightarrow> TaskExecution) \<Rightarrow> ProjectState \<Rightarrow> ProjectState" where
  "upd_task k f state =
     state\<lparr>tasks := map (\<lambda>kt. if fst kt = k then (fst kt, f (snd kt)) else kt) (tasks state)\<rparr>"

text \<open>
  The callback of \<open>task.dependsOn.every\<close> in the readiness filter:
  \<open>dep && (dep.status === "completed" || dep.status === "skipped")\<close>.
\<close>

definition dep_satisfied :: "ProjectState \<Rightarrow> string \<Rightarrow> bool" where
  "dep_satisfied state depId =
     (case map_of (tasks state) depId of
        None \<Rightarrow> False
      | Some dep \<Rightarrow> status dep = TaskCompleted \<or> status dep = TaskSkipped)"

text \<open>
  \<open>pending.filter(...)\<close>. \<open>taskMap.get(t.taskId)!\<close> is \<open>undefined\<close> for an execution
  whose task is not in the plan, and reading its \<open>dependsOn\<close> throws.
\<close>

fun ready_filter ::
  "TaskNode list \<Rightarrow> ProjectState \<Rightarrow> TaskExecution list \<Rightarrow> err + TaskExecution list" where
  "ready_filter ts state [] = Inr []"
| "ready_filter ts state (t # rest) =
     (case taskMap ts (taskId t) of
        None \<Rightarrow> Inl ''TypeError: Cannot read properties of undefined''
      | Some node \<Rightarrow>
          (case ready_filter ts state rest of
             Inl e \<Rightarrow> Inl e
           | Inr r \<Rightarrow> Inr (if list_all (dep_satisfied state) (dependsOn node) then t # r else r)))"

text \<open>
  \<open>xs.slice(0, n)\<close> for an integer \<open>n\<close>: a negative end counts from the end of the
  array.
\<close>

definition js_slice0 :: "'a list \<Rightarrow> int \<Rightarrow> 'a list" where
  "js_slice0 xs n = (if n < 0 then take (nat (int (length xs) + n)) xs else take (nat n) xs)"

text \<open>The \<open>catch\<close> block of \<open>spawnTask\<close>.\<close>

definition spawn_failed ::
  "Client \<Rightarrow> World \<Rightarrow> ProjectState \<Rightarrow> TaskNode \<Rightarrow> err \<Rightarrow> ProjectState \<times> World" where
  "spawn_failed c w state node e =
     (case now c w of
        (t, w1) \<Rightarrow>
          persist c w1 (upd_task (node_id node)
            (\<lambda>x. x\<lparr>status := TaskFailed, error := Some e, completedAt := Some t\<rparr>) state))"

text \<open>
  \<open>spawnTask\<close>. \<open>state.tasks[task.id]\<close> is read before the \<open>try\<close>, so a missing entry
  throws out of the function (\<open>Inl\<close>); errors of the collaborator are caught and mark the
  task failed. When the id is no own key but a member of \<open>Object.prototype\<close>, the writes
  to \<open>exec\<close> land on that member and no property of \<open>state.tasks\<close> changes
  (\<open>upd_task\<close> of an absent key changes nothing).
\<close>

definition spawnTask ::
  "Client \<Rightarrow> World \<Rightarrow> ProjectState \<Rightarrow> TaskNode \<Rightarrow> err + ProjectState \<times> World" where
  "spawnTask c w state node =
     (if \<not> obj_truthy (tasks state) (node_id node)
      then Inl ''TypeError: Cannot set properties of undefined''
      else
        (case now c w of
           (t, w0) \<Rightarrow>
             (let state1 = upd_task (node_id node)
                    (\<lambda>x. x\<lparr>status := TaskRunning, startedAt := Some t\<rparr>) state
              in case createSession c w0 of
                   (Inl e, w1) \<Rightarrow> Inr (spawn_failed c w1 state1 node e)
                 | (Inr sid, w1) \<Rightarrow>
                     (case persist c w1 (upd_task (node_id node)
                             (\<lambda>x. x\<lparr>sessionId := Some sid,
                                     branchName := Some (expectedBranchName node)\<rparr>) state1) of
                        (state2, w2) \<Rightarrow>
                          (case sendPrompt c w2 of
                             (Inl e, w3) \<Rightarrow> Inr (spawn_failed c w3 state2 node e)
                           | (Inr u, w3) \<Rightarrow> Inr (state2, w3))))))"

text \<open>The \<open>for (const exec of toSpawn)\<close> loop.\<close>

fun spawn_all ::
  "Client \<Rightarrow> TaskNode list \<Rightarrow> TaskExecution list \<Rightarrow> ProjectState \<times> World
    \<Rightarrow> err + ProjectState \<times> World" where
  "spawn_all c ts [] sw = Inr sw"
| "spawn_all c ts (x # rest) sw =
     (case taskMap ts (taskId x) of
        None \<Rightarrow> Inl ''TypeError: Cannot read properties of undefined''
      | Some node \<Rightarrow>
          (case spawnTask c (snd sw) (fst sw) node of
             Inl e \<Rightarrow> Inl e
           | Inr sw' \<Rightarrow> spawn_all c ts rest sw'))"

text \<open>The event loop of \<open>pollTask\<close>: \<open>executionComplete\<close>, \<open>hasError\<close>, \<open>errorMsg\<close>, \<open>tokens\<close>.\<close>

fun ex_scan_event ::
  "bool \<times> bool \<times> string option \<times> string list \<Rightarrow> AgentEvent
    \<Rightarrow> bool \<times> bool \<times> string option \<times> string list" where
  "ex_scan_event (executionComplete, hasError, errorMsg, tokens) event =
     (let data = ev_data event;
          tokens' = (case content data of
                       Some s \<Rightarrow> if ev_type event = ''token'' then tokens @ [s] else tokens
                     | None \<Rightarrow> tokens);
          isComplete = (ev_type event = ''execution_complete'');
          failedRun = (isComplete \<and> success data = Some False);
          isError = (ev_type event = ''error'');
          errorMsg1 = (if failedRun \<and> truthy (ev_error data) then ev_error data else errorMsg);
          errorMsg2 = (if isError \<and> truthy (ev_error data) then ev_error data else errorMsg1)
      in (executionComplete \<or> isComplete, hasError \<or> failedRun \<or> isError, errorMsg2, tokens'))"

text \<open>\<open>tokenText.length > 500 ? tokenText.slice(-500) : tokenText\<close>.\<close>

definition last500 :: "string \<Rightarrow> string" where
  "last500 s = (if length s > 500 then drop (length s - 500) s else s)"

text \<open>
  \<open>pollTask\<close> for the execution stored under key \<open>k\<close>. Everything after the check of
  \<open>sessionId\<close> runs inside \<open>try\<close>; the \<open>catch\<close> only logs, so a failing call leaves the
  task as it is.
\<close>

definition pollTask :: "Client \<Rightarrow> string \<Rightarrow> ProjectState \<times> World \<Rightarrow> ProjectState \<times> World" where
  "pollTask c k sw =
     (case map_of (tasks (fst sw)) k of
        None \<Rightarrow> sw
      | Some x \<Rightarrow>
          if truthy (sessionId x) then
            (case getSession c (snd sw) of
               (Inl e, w1) \<Rightarrow> (fst sw, w1)
             | (Inr session, w1) \<Rightarrow>
                 if sandboxStatus session = ''pending'' \<or> sandboxStatus session = ''warming'' \<or>
                    sandboxStatus session = ''syncing''
                   then (fst sw, w1)
                 else
                   (case getEvents c w1 of
                      (Inl e, w2) \<Rightarrow> (fst sw, w2)
                    | (Inr events, w2) \<Rightarrow>
                        (case foldl ex_scan_event (False, False, None, []) events of
                           (executionComplete, hasError, errorMsg, tokens) \<Rightarrow>
                             if executionComplete \<or> sandboxStatus session = ''stopped'' then
                               (case now c w2 of
                                  (t, w3) \<Rightarrow>
                                    persist c w3 (upd_task k
                                      (\<lambda>x. x\<lparr>branchName :=
                                                (if truthy (ss_branchName session)
                                                 then ss_branchName session else branchName x),
                                              summary := Some (last500 (concat tokens)),
                                              status := (if hasError then TaskFailed
                                                         else TaskCompleted),
                                              error := (if hasError
                                                 then Some (or_else errorMsg
                                                        ''Session completed with errors'')
                                                 else error x),
                                              completedAt := Some t\<rparr>) (fst sw)))
                             else (fst sw, w2))))
          else sw)"

definition with_status :: "TaskStatus \<Rightarrow> ProjectState \<Rightarrow> TaskExecution list" where
  "with_status st state = filter (\<lambda>t. status t = st) (map snd (tasks state))"

text \<open>The quiescence rule: every execution still pending is marked skipped.\<close>

definition skip_pending :: "ProjectState \<Rightarrow> ProjectState" where
  "skip_pending state =
     state\<lparr>tasks := map (\<lambda>kt. if status (snd kt) = TaskPending
                  then (fst kt, (snd kt)\<lparr>status := TaskSkipped,
                                          error := Some ''Skipped: dependency failed''\<rparr>)
                  else kt) (tasks state)\<rparr>"

text \<open>
  One round of the \<open>for (;;)\<close> loop of \<open>runExecution\<close>: an error thrown out of the
  loop, the state at the \<open>break\<close>, or the state with which the next round starts.
\<close>

datatype 'a round_result = Thrown err | Broke 'a | Again 'a

definition exec_round ::
  "int \<Rightarrow> Client \<Rightarrow> TaskNode list \<Rightarrow> ProjectState \<times> World
    \<Rightarrow> (ProjectState \<times> World) round_result" where
  "exec_round maxParallel c ts sw =
     (let pending = with_status TaskPending (fst sw);
          running = with_status TaskRunning (fst sw)
      in case ready_filter ts (fst sw) pending of
           Inl e \<Rightarrow> Thrown e
         | Inr ready \<Rightarrow>
             (let slots = maxParallel - int (length running);
                  toSpawn = js_slice0 ready slots
              in case spawn_all c ts toSpawn sw of
                   Inl e \<Rightarrow> Thrown e
                 | Inr sw1 \<Rightarrow>
                     if length running = 0 \<and> length toSpawn = 0 then
                       (if length pending > 0
                          then Broke (persist c (snd sw1) (skip_pending (fst sw1)))
                        else Broke sw1)
                     else
                       (let polled = map fst (filter (\<lambda>kt. status (snd kt) = TaskRunning)
                                        (tasks (fst sw1)));
                            sw2 = foldl (\<lambda>s k. pollTask c k s) sw1 polled
                        in Again (persist c (snd sw2) (fst sw2)))))"

text \<open>
  The loop. The fuel bounds the number of rounds the model runs; \<open>None\<close> says that
  tasks were still running when it ran out. \<open>Inl\<close> is an error thrown out of the loop,
  \<open>Inr\<close> the state and world at the \<open>break\<close>.
\<close>

fun exec_loop ::
  "nat \<Rightarrow> int \<Rightarrow> Client \<Rightarrow> TaskNode list \<Rightarrow> ProjectState \<times> World
    \<Rightarrow> (err + ProjectState \<times> World) option" where
  "exec_loop 0 maxParallel c ts sw = None"
| "exec_loop (Suc fuel) maxParallel c ts sw =
     (case exec_round maxParallel c ts sw of
        Thrown e \<Rightarrow> Some (Inl e)
      | Broke sw' \<Rightarrow> Some (Inr sw')
      | Again sw' \<Rightarrow> exec_loop fuel maxParallel c ts sw')"

text \<open>
  The execution record a task gets when it is not yet tracked. \<open>!state.tasks[task.id]\<close>
  is false for an own key and for a member of \<open>Object.prototype\<close>.
\<close>

definition fresh_execution :: "string \<Rightarrow> TaskExecution" where
  "fresh_execution i =
     \<lparr>taskId = i, status = TaskPending, sessionId = None, branchName = None, startedAt = None,
      completedAt = None, summary = None, error = None, retryCount = 0\<rparr>"

fun init_tasks :: "TaskNode list \<Rightarrow> ProjectState \<Rightarrow> ProjectState" where
  "init_tasks [] state = state"
| "init_tasks (t # rest) state =
     init_tasks rest
       (if obj_truthy (tasks state) (node_id t) then state
        else state\<lparr>tasks := obj_set (node_id t) (fresh_execution (node_id t)) (tasks state)\<rparr>)"

text \<open>
  \<open>runExecution\<close>, with \<open>options.maxParallel\<close> as an optional integer
  (\<open>DEFAULT_MAX_PARALLEL = 3\<close>). The result is the outcome (\<open>Inl\<close> the message of the
  error raised), the project state and the world.
\<close>

definition runExecution ::
  "nat \<Rightarrow> int option \<Rightarrow> Client \<Rightarrow> World \<Rightarrow> ProjectState
    \<Rightarrow> ((err + unit) \<times> ProjectState \<times> World) option" where
  "runExecution fuel maxParallelOpt c w state0 =
     (let maxParallel = (case maxParallelOpt of None \<Rightarrow> 3 | Some m \<Rightarrow> m) in
      case persist c w (state0\<lparr>phase := PhaseExecuting\<rparr>) of
        (state1, w1) \<Rightarrow>
          (case plan state1 of
             None \<Rightarrow> Some (Inl ''TypeError: Cannot read properties of null'', state1, w1)
           | Some p \<Rightarrow>
               (case persist c w1 (init_tasks (plan_tasks p) state1) of
                  (state2, w2) \<Rightarrow>
                    (case exec_loop fuel maxParallel c (plan_tasks p) (state2, w2) of
                       None \<Rightarrow> None
                     | Some (Inl e) \<Rightarrow> Some (Inl e, state2, w2)
                     | Some (Inr (state3, w3)) \<Rightarrow>
                         if length (with_status TaskFailed state3) > 0 \<and>
                            length (with_status TaskCompleted state3) = 0
                         then (case persist c w3 (state3\<lparr>phase := PhaseFailed\<rparr>) of
                                 (state4, w4) \<Rightarrow> Some (Inl ''All tasks failed'', state4, w4))
                         else Some (Inr (), state3, w3)))))"











definition moved :: "TaskExecution \<Rightarrow> TaskExecution \<Rightarrow> bool" where
  "moved x y \<longleftrightarrow>
     taskId y = taskId x \<and>
     (status y = status x \<or> (status y \<noteq> TaskPending \<and> status y \<noteq> TaskSkipped))"



section \<open>Project store (state/project.ts)\<close>

text \<open>
  The file system is a map from paths to file contents. \<open>path.join\<close> is concatenation
  with a separator (the home directory is taken to be a normalised absolute path and the
  project id to contain no separator). \<open>JSON.stringify\<close> and \<open>JSON.parse\<close> belong to
  the platform and are parameters; \<open>parse\<close> yields \<open>None\<close> where \<open>JSON.parse\<close>
  throws. \<open>Date.now()\<close> is the clock reading passed to \<open>saveProject\<close>. Calls of the
  file system are taken to succeed, except reading a file that does not exist.
\<close>

type_synonym FS = "string \<Rightarrow> string option"

definition getProjectsDir :: "string \<Rightarrow> string" where
  "getProjectsDir home = home @ ''/.open-inspect/projects''"

definition project_file :: "string \<Rightarrow> string \<Rightarrow> string" where
  "project_file home i = getProjectsDir home @ ''/'' @ i @ ''.json''"

text \<open>\<open>fs.rename(from, to)\<close>: the content moves; nothing happens to a missing source.\<close>

definition rename :: "string \<Rightarrow> string \<Rightarrow> FS \<Rightarrow> FS" where
  "rename src dst fs =
     (case fs src of None \<Rightarrow> fs | Some data \<Rightarrow> (fs(src := None))(dst := Some data))"

definition saveProject ::
  "(ProjectState \<Rightarrow> string) \<Rightarrow> string \<Rightarrow> int \<Rightarrow> FS \<Rightarrow> ProjectState \<Rightarrow> ProjectState \<times> FS" where
  "saveProject stringify home clock fs state =
     (let filePath = project_file home (project_id state);
          tmpPath = filePath @ ''.tmp'';
          state' = state\<lparr>updatedAt := clock\<rparr>;
          fs1 = fs(tmpPath := Some (stringify state' @ [CHR 0x0A]))
      in (state', rename tmpPath filePath fs1))"


section \<open>Retry policy (util/retry.ts)\<close>

text \<open>
  The operation passed to \<open>retry\<close> is called once per attempt index, so its behaviour
  is a function from the attempt index to either the error it raises (\<open>Inl\<close>) or the value
  it resolves to (\<open>Inr\<close>). \<open>maxAttempts\<close> is an integer (the source compares
  \<open>attempt < maxAttempts\<close>, and nothing stops a caller from passing zero or a negative
  number). The jittered sleep between attempts changes no value the function returns and
  is left out.

  The result pairs the list of attempt indices the operation was invoked with, in order,
  with the outcome: \<open>Inr v\<close> for a returned value, \<open>Inl (Some e)\<close> for a raised error
  \<open>e\<close>, and \<open>Inl None\<close> for \<open>throw lastError\<close> when \<open>lastError\<close> was never
  assigned.
\<close>

record 'e RetryOptions =
  maxAttempts :: "int option"
  baseDelayMs :: "int option"
  maxDelayMs :: "int option"
  shouldAbort :: "('e \<Rightarrow> bool) option"

definition aborts :: "('e \<Rightarrow> bool) option \<Rightarrow> 'e \<Rightarrow> bool" where
  "aborts sa e = (case sa of None \<Rightarrow> False | Some f \<Rightarrow> f e)"

function retry_loop ::
  "(nat \<Rightarrow> 'e + 'a) \<Rightarrow> int \<Rightarrow> ('e \<Rightarrow> bool) option \<Rightarrow> nat \<Rightarrow> 'e option
    \<Rightarrow> nat list \<times> ('e option + 'a)" where
  "retry_loop fn maxA sa attempt lastError =
     (if int attempt < maxA then
        (case fn attempt of
           Inr v \<Rightarrow> ([attempt], Inr v)
         | Inl err \<Rightarrow>
             if aborts sa err then ([attempt], Inl (Some err))
             else (case retry_loop fn maxA sa (Suc attempt) (Some err) of
                     (calls, out) \<Rightarrow> (attempt # calls, out)))
      else ([], Inl lastError))"
  by pat_completeness auto
termination
  by (relation "measure (\<lambda>(fn, maxA, sa, attempt, lastError). nat (maxA - int attempt))") auto

text \<open>The destructuring default \<open>maxAttempts = 3\<close>.\<close>

definition attempts_allowed :: "'e RetryOptions \<Rightarrow> int" where
  "attempts_allowed options = (case maxAttempts options of None \<Rightarrow> 3 | Some m \<Rightarrow> m)"

definition retry :: "(nat \<Rightarrow> 'e + 'a) \<Rightarrow> 'e RetryOptions \<Rightarrow> nat list \<times> ('e option + 'a)" where
  "retry fn options = retry_loop fn (attempts_allowed options) (shouldAbort options) 0 None"

declare retry_loop.simps [simp del]


text \<open>An operation that fails twice and then succeeds, as in the repository's retry test.\<close>

definition flaky :: "nat \<Rightarrow> string + string" where
  "flaky i = (if i = 0 then Inl ''fail 1'' else if i = 1 then Inl ''fail 2'' else Inr ''ok'')"

text \<open>
  The operations of the other retry tests: one that fails on every attempt, and one that
  fails every time with the error the test's \<open>shouldAbort\<close> recognises.
\<close>

definition always_fails :: "nat \<Rightarrow> string + string" where
  "always_fails i = Inl ''fail''"

definition always_fatal :: "nat \<Rightarrow> string + string" where
  "always_fatal i = Inl ''fatal''"

section \<open>Project creation and the inputs used in examples\<close>

text \<open>
  \<open>createProject\<close> of \<open>state/project.ts\<close>, with the random id and the clock reading
  passed in.
\<close>

definition createProject :: "string \<Rightarrow> int \<Rightarrow> string \<Rightarrow> Repo \<Rightarrow> string \<Rightarrow> ProjectState" where
  "createProject uuid t g r plannerModel =
     \<lparr>project_id = uuid, createdAt = t, updatedAt = t, goal = g, repo = r,
      phase = PhasePlanning,
      planning = \<lparr>pl_sessionId = None, pl_model = plannerModel, pl_status = StPending,
                  pl_error = None\<rparr>,
      plan = None, tasks = [],
      integration = \<lparr>in_sessionId = None, in_status = StPending, mergedBranch = None,
                     prUrl = None, in_error = None\<rparr>\<rparr>"

text \<open>The helper \<open>task(id, dependsOn)\<close> of \<open>dag.test.ts\<close>.\<close>

definition task :: "string \<Rightarrow> string list \<Rightarrow> TaskNode" where
  "task i deps =
     \<lparr>node_id = i, title = ''Task '' @ i, description = ''Description for '' @ i,
      fileScope = [''src/'' @ i @ ''/**''], dependsOn = deps, complexity = Medium\<rparr>"

text \<open>The linear chain of the tests, listed dependents first: \<open>t3\<close> needs \<open>t2\<close> needs \<open>t1\<close>.\<close>

definition chain3 :: "TaskNode list" where
  "chain3 = [task ''t3'' [''t2''], task ''t2'' [''t1''], task ''t1'' []]"

text \<open>
  The two-task cycle, the unknown dependency and the duplicate id of the tests; a task
  that depends on itself; and a cycle hidden by a later task with the id of one of its
  members.
\<close>

definition two_cycle :: "TaskNode list" where
  "two_cycle = [task ''t1'' [''t2''], task ''t2'' [''t1'']]"

definition self_dependent :: "TaskNode list" where
  "self_dependent = [task ''t1'' [''t1'']]"

definition unknown_dependency :: "TaskNode list" where
  "unknown_dependency = [task ''t1'' [''t99'']]"

definition duplicate_ids :: "TaskNode list" where
  "duplicate_ids = [task ''t1'' [], task ''t1'' []]"

definition shadowed_cycle :: "TaskNode list" where
  "shadowed_cycle = [task ''t1'' [''t2''], task ''t2'' [''t1''], task ''t1'' []]"

text \<open>A task execution as \<open>runExecution\<close> initialises it, with a given status and branch.\<close>

definition exec_of :: "string \<Rightarrow> TaskStatus \<Rightarrow> string option \<Rightarrow> TaskExecution" where
  "exec_of i st br =
     \<lparr>taskId = i, status = st, sessionId = None, branchName = br, startedAt = None,
      completedAt = None, summary = None, error = None, retryCount = 0\<rparr>"

text \<open>
  A project with a two-task plan \<open>t1\<close>, \<open>t2\<close> (\<open>t2\<close> depends on \<open>t1\<close>) whose
  executions have the given statuses and branches.
\<close>

definition two_task_project ::
  "TaskStatus \<Rightarrow> string option \<Rightarrow> TaskStatus \<Rightarrow> string option \<Rightarrow> ProjectState" where
  "two_task_project st1 br1 st2 br2 =
     (createProject ''p1'' 1000 ''Refactor auth'' \<lparr>repo_owner = ''acme'', repo_name = ''api''\<rparr>
        ''model'')
       \<lparr>phase := PhaseExecuting,
        plan := Some \<lparr>plan_summary = ''two steps'',
                      plan_tasks = [task ''t1'' [], task ''t2'' [''t1'']]\<rparr>,
        tasks := [(''t1'', exec_of ''t1'' st1 br1), (''t2'', exec_of ''t2'' st2 br2)]\<rparr>"

text \<open>
  A collaborator that answers every call the same way: sessions are created and prompts
  accepted, the session reads as idle (\<open>ready\<close>) on branch \<open>integrate/all\<close>, and every
  poll returns the given events and artifacts.
\<close>

definition steady_client :: "AgentEvent list \<Rightarrow> SessionArtifact list \<Rightarrow> Client" where
  "steady_client events artifacts =
     \<lparr>createSession_res = (\<lambda>k. Inr ''s1''),
      sendPrompt_res = (\<lambda>k. Inr ()),
      getSession_res = (\<lambda>k. Inr \<lparr>raw_branchName = Some ''integrate/all'',
                                   raw_sandbox_status = Some ''ready''\<rparr>),
      getEvents_res = (\<lambda>k. Inr events),
      getArtifacts_res = (\<lambda>k. Inr artifacts),
      dateNow = (\<lambda>k. 2000 + int k)\<rparr>"

definition done_event :: AgentEvent where
  "done_event = \<lparr>ev_id = ''e1'', ev_type = ''execution_complete'',
      ev_data = \<lparr>content = None, success = Some True, ev_error = None\<rparr>\<rparr>"

definition failed_event :: AgentEvent where
  "failed_event = \<lparr>ev_id = ''e1'', ev_type = ''execution_complete'',
      ev_data = \<lparr>content = None, success = Some False, ev_error = Some ''boom''\<rparr>\<rparr>"

definition failed_silent_event :: AgentEvent where
  "failed_silent_event = \<lparr>ev_id = ''e1'', ev_type = ''execution_complete'',
      ev_data = \<lparr>content = None, success = Some False, ev_error = None\<rparr>\<rparr>"

definition pull_request_artifact :: SessionArtifact where
  "pull_request_artifact =
     \<lparr>art_type = ''pull request'', art_url = Some ''https://example.test/pr/7''\<rparr>"

definition pr_artifact :: SessionArtifact where
  "pr_artifact = \<lparr>art_type = ''pr'', art_url = Some ''https://example.test/pr/7''\<rparr>"

text \<open>Both tasks completed, each on its own branch.\<close>

definition both_done :: ProjectState where
  "both_done = two_task_project TaskCompleted (Some ''oi/t1-a'') TaskCompleted (Some ''oi/t2-b'')"

text \<open>What the examples read off the result of a controller run.\<close>

definition run_outcome :: "('a \<times> 'b \<times> 'c) option \<Rightarrow> 'a option" where
  "run_outcome r = map_option fst r"

definition integration_summary ::
  "((err + IntegrationResult) \<times> ProjectState \<times> World) option
    \<Rightarrow> ((err + IntegrationResult) \<times> string option \<times> SubStatus \<times> ProjectPhase) option" where
  "integration_summary r =
     map_option (\<lambda>x. (fst x, prUrl (integration (fst (snd x))),
                       in_status (integration (fst (snd x))), phase (fst (snd x)))) r"






chapter \<open>Properties\<close>

section \<open>Structured-output extraction\<close>

lemma fence_match_two_fences: "fence_match two_fences = Some (doc_a @ [CHR 0x0A])"
  by code_simp

lemma trim_doc_a: "trim (doc_a @ [CHR 0x0A]) = doc_a"
  by code_simp

text \<open>
  Claim C5 fails on the code: the pattern of \<open>extractJson\<close> matches the leftmost fence,
  tagged or not. On a text with an untagged fence around \<open>{"a":1}\<close> followed by a
  \<open>json\<close> fence around \<open>{"b":2}\<close>, whatever \<open>JSON.parse\<close> makes of the first
  document is returned, and the \<open>json\<close> fence is never looked at.
\<close>

theorem first_fence_wins:
  "JSON_parse doc_a = Some va \<Longrightarrow> extractJson JSON_parse two_fences = Some va"
  by (simp add: extractJson_def fence_match_two_fences trim_doc_a)

theorem first_fence_wins_witness:
  "parse_two_docs doc_a = Some ''A'' \<and> parse_two_docs doc_b = Some ''B'' \<and>
   extractJson parse_two_docs two_fences = Some ''A''"
proof -
  have a: "parse_two_docs doc_a = Some ''A''" by (simp add: parse_two_docs_def)
  have b: "parse_two_docs doc_b = Some ''B''" by code_simp
  from first_fence_wins [where JSON_parse = parse_two_docs and va = "''A''", OF a] a b
  show ?thesis by simp
qed

section \<open>Graph engine\<close>

subsection \<open>Loops\<close>

lemma foldl_loop_step_None [simp]: "foldl (loop_step body) None xs = None"
  by (induction xs) (simp_all add: loop_step_def)

lemma foldl_loop_step_Inl [simp]: "foldl (loop_step body) (Some (Inl e)) xs = Some (Inl e)"
  by (induction xs) (simp_all add: loop_step_def)

lemma for_each_Nil [simp]: "for_each body [] s = Some (Inr s)"
  by (simp add: for_each_def)

lemma for_each_Cons:
  "for_each body (x # xs) s =
     (case body x s of
        None \<Rightarrow> None
      | Some (Inl e) \<Rightarrow> Some (Inl e)
      | Some (Inr s') \<Rightarrow> for_each body xs s')"
  by (simp add: for_each_def loop_step_def split: option.splits sum.splits)

subsection \<open>taskMap\<close>

lemma taskMap_Some_mem: "taskMap ts i = Some t \<Longrightarrow> t \<in> set ts \<and> node_id t = i"
  unfolding taskMap_def by (auto dest!: map_of_SomeD)

lemma taskMap_distinct:
  assumes "distinct (map node_id ts)" "t \<in> set ts"
  shows "taskMap ts (node_id t) = Some t"
proof -
  have "distinct (map fst (rev (map (\<lambda>t. (node_id t, t)) ts)))"
    using assms(1) by (simp add: rev_map [symmetric] comp_def distinct_rev)
  moreover have "(node_id t, t) \<in> set (rev (map (\<lambda>t. (node_id t, t)) ts))"
    using assms(2) by auto
  ultimately show ?thesis unfolding taskMap_def by (rule map_of_is_SomeI)
qed

lemma taskMap_dom: "dom (taskMap ts) = set (map node_id ts)"
  unfolding taskMap_def by (auto simp: dom_map_of_conv_image_fst image_comp comp_def)

subsection \<open>deps_first\<close>

lemma deps_first_append:
  "deps_first seen (xs @ ys) \<longleftrightarrow>
     deps_first seen xs \<and> deps_first (seen \<union> node_id ` set xs) ys"
proof (induction xs arbitrary: seen)
  case Nil
  then show ?case by simp
next
  case (Cons x xs)
  have "insert (node_id x) seen \<union> node_id ` set xs = seen \<union> node_id ` set (x # xs)" by auto
  with Cons show ?case by auto
qed

lemma deps_first_mono: "deps_first seen xs \<Longrightarrow> seen \<subseteq> seen' \<Longrightarrow> deps_first seen' xs"
proof (induction xs arbitrary: seen seen')
  case Nil
  then show ?case by simp
next
  case (Cons x xs)
  from Cons.prems have "deps_first (insert (node_id x) seen) xs" by simp
  moreover have "insert (node_id x) seen \<subseteq> insert (node_id x) seen'" using Cons.prems by auto
  ultimately have "deps_first (insert (node_id x) seen') xs" by (rule Cons.IH)
  with Cons.prems show ?case by auto
qed


subsection \<open>visit\<close>

lemma tm_ok_edge: "tm_ok tm \<Longrightarrow> tm i = Some t \<Longrightarrow> d \<in> set (dependsOn t) \<Longrightarrow> (i, d) \<in> tm_edges tm"
  by (auto simp: tm_edges_def)

lemma visit_deps_loop:
  assumes ok: "tm_ok tm"
      and IH: "\<And>S st i. tinv tm S st \<Longrightarrow> \<forall>s\<in>S. (s, i) \<in> (tm_edges tm)\<^sup>+ \<Longrightarrow> i \<in> dom tm \<Longrightarrow>
                 card (dom tm - fst st) < n \<Longrightarrow>
                 \<exists>st'. visit n tm i st = Some (Inr st') \<and> tinv tm S st' \<and>
                       i \<in> node_id ` set (snd st') \<and> fst st \<subseteq> fst st'"
  shows "tinv tm S st \<Longrightarrow> \<forall>s\<in>S. \<forall>d\<in>set ds. (s, d) \<in> (tm_edges tm)\<^sup>+ \<Longrightarrow> set ds \<subseteq> dom tm \<Longrightarrow>
         card (dom tm - fst st) < n \<Longrightarrow>
         \<exists>st'. for_each (\<lambda>dep s. visit n tm dep s) ds st = Some (Inr st') \<and> tinv tm S st' \<and>
               set ds \<subseteq> node_id ` set (snd st') \<and> fst st \<subseteq> fst st'"
proof (induction ds arbitrary: st)
  case Nil
  then show ?case by simp
next
  case (Cons d ds)
  from Cons.prems have "\<forall>s\<in>S. (s, d) \<in> (tm_edges tm)\<^sup>+" "d \<in> dom tm" by auto
  from IH [OF Cons.prems(1) this Cons.prems(4)] obtain st1 where
    v: "visit n tm d st = Some (Inr st1)" and inv1: "tinv tm S st1" and
    din: "d \<in> node_id ` set (snd st1)" and mono1: "fst st \<subseteq> fst st1" by blast
  have fin: "finite (dom tm)" using ok by (simp add: tm_ok_def)
  have "card (dom tm - fst st1) \<le> card (dom tm - fst st)"
    using mono1 fin by (intro card_mono) auto
  with Cons.prems(4) have c1: "card (dom tm - fst st1) < n" by simp
  from Cons.prems have "\<forall>s\<in>S. \<forall>d\<in>set ds. (s, d) \<in> (tm_edges tm)\<^sup>+" "set ds \<subseteq> dom tm" by auto
  from Cons.IH [OF inv1 this c1] obtain st2 where
    f: "for_each (\<lambda>dep s. visit n tm dep s) ds st1 = Some (Inr st2)" and inv2: "tinv tm S st2" and
    dsin: "set ds \<subseteq> node_id ` set (snd st2)" and mono2: "fst st1 \<subseteq> fst st2" by blast
  have "d \<in> fst st1" using din inv1 by (auto simp: tinv_def)
  then have "d \<in> fst st2" using mono2 by auto
  moreover have "d \<notin> S" using din inv1 by (auto simp: tinv_def)
  ultimately have "d \<in> node_id ` set (snd st2)" using inv2 by (auto simp: tinv_def)
  with v f inv2 dsin mono1 mono2 show ?case
    by (auto simp: for_each_Cons)
qed

lemma visit_ok:
  assumes ok: "tm_ok tm"
  shows "tinv tm S st \<Longrightarrow> \<forall>s\<in>S. (s, i) \<in> (tm_edges tm)\<^sup>+ \<Longrightarrow> i \<in> dom tm \<Longrightarrow>
         card (dom tm - fst st) < n \<Longrightarrow>
         \<exists>st'. visit n tm i st = Some (Inr st') \<and> tinv tm S st' \<and>
               i \<in> node_id ` set (snd st') \<and> fst st \<subseteq> fst st'"
proof (induction n arbitrary: S st i)
  case 0
  then show ?case by simp
next
  case (Suc n)
  have fin: "finite (dom tm)" and acyc: "acyclic (tm_edges tm)" using ok by (simp_all add: tm_ok_def)
  show ?case
  proof (cases "i \<in> fst st")
    case True
    have "i \<notin> S"
    proof
      assume "i \<in> S"
      with Suc.prems(2) have "(i, i) \<in> (tm_edges tm)\<^sup>+" by blast
      with acyc show False by (auto simp: acyclic_def)
    qed
    with True Suc.prems(1) have "i \<in> node_id ` set (snd st)" by (auto simp: tinv_def)
    with True Suc.prems(1) show ?thesis by auto
  next
    case False
    from Suc.prems(3) obtain t where t: "tm i = Some t" by auto
    with ok have idt: "node_id t = i" and sub: "set (dependsOn t) \<subseteq> dom tm"
      by (auto simp: tm_ok_def)
    let ?st1 = "(insert i (fst st), snd st)"
    let ?S1 = "insert i S"
    have iS: "i \<notin> S" and iR: "i \<notin> node_id ` set (snd st)"
      using False Suc.prems(1) by (auto simp: tinv_def)
    have inv1: "tinv tm ?S1 ?st1"
      using Suc.prems(1) iR by (auto simp: tinv_def)
    have reach: "\<forall>s\<in>?S1. \<forall>d\<in>set (dependsOn t). (s, d) \<in> (tm_edges tm)\<^sup>+"
    proof (intro ballI)
      fix s d assume s: "s \<in> ?S1" and d: "d \<in> set (dependsOn t)"
      have e: "(i, d) \<in> tm_edges tm" using t d by (auto simp: tm_edges_def)
      show "(s, d) \<in> (tm_edges tm)\<^sup>+"
      proof (cases "s = i")
        case True
        with e show ?thesis by auto
      next
        case False
        with s Suc.prems(2) have "(s, i) \<in> (tm_edges tm)\<^sup>+" by auto
        then show ?thesis using e by (rule trancl_into_trancl)
      qed
    qed
    have "i \<in> dom tm - fst st" using False Suc.prems(3) by auto
    then have "dom tm - fst st = insert i (dom tm - insert i (fst st))" by auto
    moreover have "i \<notin> dom tm - insert i (fst st)" by auto
    moreover have "finite (dom tm - insert i (fst st))" using fin by auto
    ultimately have "card (dom tm - fst st) = Suc (card (dom tm - insert i (fst st)))"
      by (metis card_insert_disjoint)
    with Suc.prems(4) have c1: "card (dom tm - fst ?st1) < n" by simp
    from visit_deps_loop [OF ok Suc.IH inv1 reach sub c1] obtain st2 where
      f: "for_each (\<lambda>dep s. visit n tm dep s) (dependsOn t) ?st1 = Some (Inr st2)" and
      inv2: "tinv tm ?S1 st2" and din: "set (dependsOn t) \<subseteq> node_id ` set (snd st2)" and
      mono: "fst ?st1 \<subseteq> fst st2"
      by blast
    let ?st' = "(fst st2, snd st2 @ [t])"
    have v: "visit (Suc n) tm i st = Some (Inr ?st')"
      using False t f by simp
    have iR2: "i \<notin> node_id ` set (snd st2)" using inv2 by (auto simp: tinv_def)
    have inv': "tinv tm S ?st'"
      unfolding tinv_def
    proof (intro conjI)
      show "fst ?st' = node_id ` set (snd ?st') \<union> S"
        using inv2 idt by (auto simp: tinv_def)
      show "S \<inter> node_id ` set (snd ?st') = {}"
        using inv2 idt iS by (auto simp: tinv_def)
      show "distinct (map node_id (snd ?st'))"
        using inv2 idt iR2 by (auto simp: tinv_def)
      show "\<forall>t\<in>set (snd ?st'). tm (node_id t) = Some t"
        using inv2 idt t by (auto simp: tinv_def)
      show "deps_first {} (snd ?st')"
        using inv2 din by (auto simp: tinv_def deps_first_append)
    qed
    have "i \<in> node_id ` set (snd ?st')" using idt by auto
    moreover have "fst st \<subseteq> fst ?st'" using mono by auto
    ultimately show ?thesis using v inv' by blast
  qed
qed


lemma visit_all_loop:
  assumes ok: "tm_ok tm" and fuel: "card (dom tm) < n"
  shows "tinv tm {} st \<Longrightarrow> node_id ` set xs \<subseteq> dom tm \<Longrightarrow>
         \<exists>st'. for_each (\<lambda>t s. visit n tm (node_id t) s) xs st = Some (Inr st') \<and>
               tinv tm {} st' \<and> node_id ` set xs \<subseteq> node_id ` set (snd st') \<and>
               fst st \<subseteq> fst st'"
proof (induction xs arbitrary: st)
  case Nil
  then show ?case by simp
next
  case (Cons x xs)
  have fin: "finite (dom tm)" using ok by (simp add: tm_ok_def)
  have c: "\<And>V. card (dom tm - V) < n"
  proof -
    fix V :: "string set"
    have "card (dom tm - V) \<le> card (dom tm)" using fin by (intro card_mono) auto
    with fuel show "card (dom tm - V) < n" by simp
  qed
  from Cons.prems have x: "node_id x \<in> dom tm" by auto
  have e: "\<forall>s\<in>{}. (s, node_id x) \<in> (tm_edges tm)\<^sup>+" by simp
  from visit_ok [OF ok Cons.prems(1) e x c] obtain st1 where
    v: "visit n tm (node_id x) st = Some (Inr st1)" and inv1: "tinv tm {} st1" and
    xin: "node_id x \<in> node_id ` set (snd st1)" and mono1: "fst st \<subseteq> fst st1" by blast
  from Cons.prems have "node_id ` set xs \<subseteq> dom tm" by auto
  from Cons.IH [OF inv1 this] obtain st2 where
    f: "for_each (\<lambda>t s. visit n tm (node_id t) s) xs st1 = Some (Inr st2)" and
    inv2: "tinv tm {} st2" and xsin: "node_id ` set xs \<subseteq> node_id ` set (snd st2)" and
    mono2: "fst st1 \<subseteq> fst st2" by blast
  have "node_id x \<in> fst st1" using xin inv1 by (auto simp: tinv_def)
  then have "node_id x \<in> fst st2" using mono2 by auto
  then have "node_id x \<in> node_id ` set (snd st2)" using inv2 by (auto simp: tinv_def)
  with v f inv2 xsin mono1 mono2 show ?case by (auto simp: for_each_Cons)
qed

subsection \<open>Well-formed task lists\<close>

lemma well_formed_tm_edges:
  assumes "distinct (map node_id ts)"
  shows "tm_edges (taskMap ts) = dep_edges ts"
proof -
  have "\<And>i d. (\<exists>t. taskMap ts i = Some t \<and> d \<in> set (dependsOn t)) \<longleftrightarrow>
              (\<exists>t\<in>set ts. node_id t = i \<and> d \<in> set (dependsOn t))"
  proof
    fix i d
    assume "\<exists>t. taskMap ts i = Some t \<and> d \<in> set (dependsOn t)"
    then obtain t where "taskMap ts i = Some t" "d \<in> set (dependsOn t)" by blast
    with taskMap_Some_mem [of ts i t]
    show "\<exists>t\<in>set ts. node_id t = i \<and> d \<in> set (dependsOn t)" by blast
  next
    fix i d
    assume "\<exists>t\<in>set ts. node_id t = i \<and> d \<in> set (dependsOn t)"
    then obtain t where t: "t \<in> set ts" "node_id t = i" "d \<in> set (dependsOn t)" by blast
    from taskMap_distinct [OF assms t(1)] t
    show "\<exists>t. taskMap ts i = Some t \<and> d \<in> set (dependsOn t)" by auto
  qed
  then show ?thesis by (simp add: tm_edges_def dep_edges_def)
qed

lemma well_formed_tm_ok:
  assumes "well_formed ts"
  shows "tm_ok (taskMap ts)"
proof -
  from assms have d: "distinct (map node_id ts)" and
    r: "\<forall>t \<in> set ts. set (dependsOn t) \<subseteq> set (map node_id ts)" and
    a: "acyclic (dep_edges ts)" by (simp_all add: well_formed_def)
  have "finite (dom (taskMap ts))" by (simp add: taskMap_dom)
  moreover have "\<forall>i t. taskMap ts i = Some t \<longrightarrow>
       node_id t = i \<and> set (dependsOn t) \<subseteq> dom (taskMap ts)"
  proof (intro allI impI)
    fix i t assume "taskMap ts i = Some t"
    from taskMap_Some_mem [OF this] have "t \<in> set ts" "node_id t = i" by simp_all
    with r show "node_id t = i \<and> set (dependsOn t) \<subseteq> dom (taskMap ts)"
      by (simp add: taskMap_dom)
  qed
  moreover have "acyclic (tm_edges (taskMap ts))" using a well_formed_tm_edges [OF d] by simp
  ultimately show ?thesis by (simp add: tm_ok_def)
qed

lemma dep_edges_cong: "set ts' = set ts \<Longrightarrow> dep_edges ts' = dep_edges ts"
  by (simp add: dep_edges_def)

lemma well_formed_perm:
  assumes "well_formed ts" "mset ts' = mset ts"
  shows "well_formed ts'"
proof -
  from assms(2) have s: "set ts' = set ts" by (rule mset_eq_setD)
  from assms(2) have "mset (map node_id ts') = mset (map node_id ts)" by simp
  then have "distinct (map node_id ts') = distinct (map node_id ts)"
    by (rule mset_eq_imp_distinct_iff)
  with assms(1) s dep_edges_cong [OF s] show ?thesis by (simp add: well_formed_def)
qed

subsection \<open>Positions\<close>

lemma deps_first_nth:
  assumes "deps_first seen xs" "i < length xs" "d \<in> set (dependsOn (xs ! i))"
  shows "d \<in> seen \<or> (\<exists>j<i. node_id (xs ! j) = d)"
  using assms
proof (induction xs arbitrary: seen i)
  case Nil
  then show ?case by simp
next
  case (Cons x xs)
  show ?case
  proof (cases i)
    case 0
    with Cons.prems show ?thesis by auto
  next
    case (Suc k)
    with Cons.prems have "deps_first (insert (node_id x) seen) xs" "k < length xs"
      "d \<in> set (dependsOn (xs ! k))" by auto
    from Cons.IH [OF this] have "d \<in> insert (node_id x) seen \<or> (\<exists>j<k. node_id (xs ! j) = d)" .
    then show ?thesis
    proof (elim disjE exE conjE)
      assume "d \<in> insert (node_id x) seen"
      then show ?thesis using Suc by (cases "d = node_id x") auto
    next
      fix j assume "j < k" "node_id (xs ! j) = d"
      then have "Suc j < i \<and> node_id ((x # xs) ! Suc j) = d" using Suc by simp
      then show ?thesis by blast
    qed
  qed
qed


lemma chain3_well_formed: "well_formed chain3"
proof -
  let ?f = "\<lambda>i. if i = ''t1'' then 0 else if i = ''t2'' then 1 else (2::nat)"
  have "acyclic (dep_edges chain3)"
  proof (rule acyclicI_order [where f = ?f])
    fix a b assume "(a, b) \<in> dep_edges chain3"
    then have "\<exists>t\<in>set chain3. node_id t = a \<and> b \<in> set (dependsOn t)"
      by (simp add: dep_edges_def)
    then have "(a = ''t3'' \<and> b = ''t2'') \<or> (a = ''t2'' \<and> b = ''t1'')"
      by (auto simp: chain3_def task_def)
    then show "?f b < ?f a" by (elim disjE conjE) simp_all
  qed
  moreover have "distinct (map node_id chain3)" by (simp add: chain3_def task_def)
  moreover have "\<forall>t \<in> set chain3. set (dependsOn t) \<subseteq> set (map node_id chain3)"
    by (simp add: chain3_def task_def)
  ultimately show ?thesis by (simp add: well_formed_def)
qed

text \<open>
  Claim C7. For a task list with unique ids, resolvable dependencies and no cycle, and for
  every permutation of it as input, \<open>topologicalSort\<close> returns (given fuel beyond the
  number of tasks, it never runs out) a permutation of the input that lists each task
  once and in which every task stands after all the tasks it depends on, directly or
  transitively.
\<close>

theorem topologicalSort_dependencies_first:
  assumes wf: "well_formed ts" and perm: "mset ts' = mset ts" and fuel: "length ts < fuel"
  shows "\<exists>out. topologicalSort fuel ts' = Some (Inr out) \<and> mset out = mset ts \<and> distinct out \<and>
           (\<forall>i<length out. \<forall>d. (node_id (out ! i), d) \<in> (dep_edges ts)\<^sup>+ \<longrightarrow>
                (\<exists>j<i. node_id (out ! j) = d))"
proof -
  let ?tm = "taskMap ts'"
  have wf': "well_formed ts'" using wf perm by (rule well_formed_perm)
  then have dist: "distinct (map node_id ts')" by (simp add: well_formed_def)
  have ok: "tm_ok ?tm" using wf' by (rule well_formed_tm_ok)
  have len: "length ts' = length ts" using perm by (rule mset_eq_length)
  have "card (set (map node_id ts')) \<le> length (map node_id ts')" by (rule card_length)
  then have "card (dom ?tm) \<le> length ts'" by (simp add: taskMap_dom)
  with fuel len have c: "card (dom ?tm) < fuel" by simp
  have inv0: "tinv ?tm {} ({}, [])" by (simp add: tinv_def)
  have sub: "node_id ` set ts' \<subseteq> dom ?tm" by (simp add: taskMap_dom)
  from visit_all_loop [OF ok c inv0 sub] obtain st where
    f: "for_each (\<lambda>t s. visit fuel ?tm (node_id t) s) ts' ({}, []) = Some (Inr st)" and
    inv: "tinv ?tm {} st" and allin: "node_id ` set ts' \<subseteq> node_id ` set (snd st)" by blast
  let ?out = "snd st"
  have run: "topologicalSort fuel ts' = Some (Inr ?out)"
    by (simp add: topologicalSort_def f)
  from inv have dn: "distinct (map node_id ?out)" and
    tmout: "\<forall>t\<in>set ?out. ?tm (node_id t) = Some t" and df: "deps_first {} ?out"
    by (simp_all add: tinv_def)
  have dout: "distinct ?out" using dn by (simp add: distinct_map)
  have s1: "set ?out \<subseteq> set ts'"
  proof
    fix t assume "t \<in> set ?out"
    with tmout have "?tm (node_id t) = Some t" by (rule bspec)
    from taskMap_Some_mem [OF this] show "t \<in> set ts'" by simp
  qed
  have s2: "set ts' \<subseteq> set ?out"
  proof
    fix t assume t: "t \<in> set ts'"
    then have "node_id t \<in> node_id ` set ?out" using allin by blast
    then obtain r where r: "r \<in> set ?out" "node_id r = node_id t" by (elim imageE) simp
    from tmout r(1) have "?tm (node_id r) = Some r" by (rule bspec)
    with r(2) have a: "?tm (node_id t) = Some r" by simp
    have b: "?tm (node_id t) = Some t" using dist t by (rule taskMap_distinct)
    from a b have "r = t" by simp
    with r(1) show "t \<in> set ?out" by simp
  qed
  have dts': "distinct ts'" using dist by (simp add: distinct_map)
  have "set ?out = set ts'" using s1 s2 by (rule subset_antisym)
  then have "mset ?out = mset ts'"
    using set_eq_iff_mset_eq_distinct [OF dout dts'] by simp
  with perm have m: "mset ?out = mset ts" by simp
  have direct: "\<And>i d. i < length ?out \<Longrightarrow> (node_id (?out ! i), d) \<in> dep_edges ts \<Longrightarrow>
                  \<exists>j<i. node_id (?out ! j) = d"
  proof -
    fix i d assume i: "i < length ?out" and e: "(node_id (?out ! i), d) \<in> dep_edges ts"
    have "set ts' = set ts" using perm by (rule mset_eq_setD)
    then have "dep_edges ts' = dep_edges ts" by (rule dep_edges_cong)
    with e have "(node_id (?out ! i), d) \<in> dep_edges ts'" by simp
    then have "\<exists>t\<in>set ts'. node_id t = node_id (?out ! i) \<and> d \<in> set (dependsOn t)"
      by (simp add: dep_edges_def)
    then obtain t where t: "t \<in> set ts'" "node_id t = node_id (?out ! i)" "d \<in> set (dependsOn t)"
      by (elim bexE conjE)
    have oi: "?out ! i \<in> set ts'" using s1 i by auto
    have "inj_on node_id (set ts')" using dist by (simp add: distinct_map)
    from inj_onD [OF this t(2) t(1) oi] have "t = ?out ! i" .
    with t have "d \<in> set (dependsOn (?out ! i))" by simp
    from deps_first_nth [OF df i this] show "\<exists>j<i. node_id (?out ! j) = d" by simp
  qed
  have trans: "\<forall>i<length ?out. \<forall>d. (node_id (?out ! i), d) \<in> (dep_edges ts)\<^sup>+ \<longrightarrow>
                (\<exists>j<i. node_id (?out ! j) = d)"
  proof (intro allI impI)
    fix i d assume i: "i < length ?out" and p: "(node_id (?out ! i), d) \<in> (dep_edges ts)\<^sup>+"
    from p show "\<exists>j<i. node_id (?out ! j) = d"
    proof (induction rule: trancl_induct)
      case (base y)
      with direct [OF i] show ?case by blast
    next
      case (step y z)
      then obtain j where j: "j < i" "node_id (?out ! j) = y" by blast
      with i have "j < length ?out" by simp
      from direct [OF this] step.hyps(2) j obtain k where "k < j" "node_id (?out ! k) = z" by blast
      with j show ?case by (intro exI [of _ k]) simp
    qed
  qed
  show ?thesis
    by (intro exI [of _ ?out] conjI) (fact run, fact m, fact dout, fact trans)
qed

theorem topologicalSort_dependencies_first_witness:
  "well_formed chain3 \<and> length chain3 < 4 \<and>
   topologicalSort 4 chain3 = Some (Inr [task ''t1'' [], task ''t2'' [''t1''], task ''t3'' [''t2'']]) \<and>
   distinct [task ''t1'' [], task ''t2'' [''t1''], task ''t3'' [''t2'']]"
proof -
  have l: "length chain3 < 4" by (simp add: chain3_def)
  have ev: "topologicalSort 4 chain3
      = Some (Inr [task ''t1'' [], task ''t2'' [''t1''], task ''t3'' [''t2'']])"
    by (simp add: topologicalSort_def chain3_def for_each_def loop_step_def taskMap_def task_def
          eval_nat_numeral)
  from topologicalSort_dependencies_first [OF chain3_well_formed refl l]
  obtain out where o: "topologicalSort 4 chain3 = Some (Inr out)" "distinct out"
    by (elim exE conjE)
  from o(1) ev have "out = [task ''t1'' [], task ''t2'' [''t1''], task ''t3'' [''t2'']]" by simp
  with o(2) have "distinct [task ''t1'' [], task ''t2'' [''t1''], task ''t3'' [''t2'']]" by simp
  with chain3_well_formed l ev show ?thesis by (intro conjI)
qed

subsection \<open>getWave\<close>

lemma wave_ok_update:
  assumes ok: "wave_ok tm wi" and t: "tm i = Some t" and none: "wi i = None"
      and defd: "\<forall>d \<in> set (dependsOn t). wi d \<noteq> None"
      and w: "w = (if dependsOn t = [] then 0 else Suc (Max ((\<lambda>d. the (wi d)) ` set (dependsOn t))))"
  shows "wave_ok tm (wi(i := Some w))"
  unfolding wave_ok_def
proof (intro allI impI)
  fix j v assume j: "(wi(i := Some w)) j = Some v"
  have same: "\<And>u. \<forall>d \<in> set (dependsOn u). wi d \<noteq> None \<Longrightarrow>
                (\<lambda>d. the ((wi(i := Some w)) d)) ` set (dependsOn u) = (\<lambda>d. the (wi d)) ` set (dependsOn u)"
  proof -
    fix u assume "\<forall>d \<in> set (dependsOn u). wi d \<noteq> None"
    with none have "\<forall>d \<in> set (dependsOn u). d \<noteq> i" by auto
    then show "(\<lambda>d. the ((wi(i := Some w)) d)) ` set (dependsOn u) = (\<lambda>d. the (wi d)) ` set (dependsOn u)"
      by (intro image_cong) auto
  qed
  show "\<exists>t. tm j = Some t \<and> (\<forall>d\<in>set (dependsOn t). (wi(i := Some w)) d \<noteq> None) \<and>
            v = (if dependsOn t = [] then 0
                 else Suc (Max ((\<lambda>d. the ((wi(i := Some w)) d)) ` set (dependsOn t))))"
  proof (cases "j = i")
    case True
    with j have vw: "v = w" by simp
    have a: "tm j = Some t" using True t by simp
    have b: "\<forall>d\<in>set (dependsOn t). (wi(i := Some w)) d \<noteq> None" using defd by simp
    have c: "v = (if dependsOn t = [] then 0
                 else Suc (Max ((\<lambda>d. the ((wi(i := Some w)) d)) ` set (dependsOn t))))"
      unfolding same [OF defd] vw by (rule w)
    from a b c show ?thesis by blast
  next
    case False
    with j have "wi j = Some v" by simp
    with ok obtain u where u: "tm j = Some u" "\<forall>d \<in> set (dependsOn u). wi d \<noteq> None"
      "v = (if dependsOn u = [] then 0 else Suc (Max ((\<lambda>d. the (wi d)) ` set (dependsOn u))))"
      unfolding wave_ok_def by blast
    have b: "\<forall>d\<in>set (dependsOn u). (wi(i := Some w)) d \<noteq> None" using u(2) by simp
    have c: "v = (if dependsOn u = [] then 0
                 else Suc (Max ((\<lambda>d. the ((wi(i := Some w)) d)) ` set (dependsOn u))))"
      unfolding same [OF u(2)] by (rule u(3))
    from u(1) b c show ?thesis by blast
  qed
qed

lemma getWave_Suc:
  "getWave (Suc n) tm i wi =
     (case wi i of
        Some w \<Rightarrow> Some (Inr (w, wi))
      | None \<Rightarrow>
          (case tm i of
             None \<Rightarrow> Some (Inl ''TypeError: Cannot read properties of undefined'')
           | Some t \<Rightarrow>
               if dependsOn t = [] then Some (Inr (0, wi(i := Some 0)))
               else
                 (case for_each (wave_body n tm) (dependsOn t) ([], wi) of
                    None \<Rightarrow> None
                  | Some (Inl e) \<Rightarrow> Some (Inl e)
                  | Some (Inr (depWaves, wi')) \<Rightarrow>
                      Some (Inr (Suc (Max (set depWaves)), wi'(i := Some (Suc (Max (set depWaves)))))))))"
  by (auto simp: wave_body_def Let_def split: option.splits sum.splits)

declare getWave.simps(2) [simp del]

lemma getWave_deps_loop:
  assumes ok: "tm_ok tm"
      and IH: "\<And>S i wi. wave_ok tm wi \<Longrightarrow> \<forall>s\<in>S. (s, i) \<in> (tm_edges tm)\<^sup>+ \<Longrightarrow> i \<in> dom tm \<Longrightarrow>
                 card (dom tm - S) < n \<Longrightarrow>
                 \<exists>w wi'. getWave n tm i wi = Some (Inr (w, wi')) \<and> wave_ok tm wi' \<and>
                    wi \<subseteq>\<^sub>m wi' \<and> wi' i = Some w \<and>
                    (\<forall>j. wi' j \<noteq> None \<longrightarrow> wi j \<noteq> None \<or> (i, j) \<in> (tm_edges tm)\<^sup>*)"
  shows "wave_ok tm wi \<Longrightarrow> \<forall>s\<in>S. \<forall>d\<in>set ds. (s, d) \<in> (tm_edges tm)\<^sup>+ \<Longrightarrow> set ds \<subseteq> dom tm \<Longrightarrow>
         card (dom tm - S) < n \<Longrightarrow>
         \<exists>wi'. for_each (wave_body n tm) ds (acc, wi)
                  = Some (Inr (acc @ map (\<lambda>d. the (wi' d)) ds, wi')) \<and>
               wave_ok tm wi' \<and> wi \<subseteq>\<^sub>m wi' \<and> (\<forall>d\<in>set ds. wi' d \<noteq> None) \<and>
               (\<forall>j. wi' j \<noteq> None \<longrightarrow> wi j \<noteq> None \<or> (\<exists>d\<in>set ds. (d, j) \<in> (tm_edges tm)\<^sup>*))"
proof (induction ds arbitrary: acc wi)
  case Nil
  then show ?case by simp
next
  case (Cons d ds)
  from Cons.prems have "\<forall>s\<in>S. (s, d) \<in> (tm_edges tm)\<^sup>+" "d \<in> dom tm" by auto
  from IH [OF Cons.prems(1) this Cons.prems(4)] obtain w wi1 where
    g: "getWave n tm d wi = Some (Inr (w, wi1))" and ok1: "wave_ok tm wi1" and
    sub1: "wi \<subseteq>\<^sub>m wi1" and d1: "wi1 d = Some w" and
    new1: "\<forall>j. wi1 j \<noteq> None \<longrightarrow> wi j \<noteq> None \<or> (d, j) \<in> (tm_edges tm)\<^sup>*"
    by (elim exE conjE)
  from Cons.prems have "\<forall>s\<in>S. \<forall>d\<in>set ds. (s, d) \<in> (tm_edges tm)\<^sup>+" "set ds \<subseteq> dom tm" by auto
  from Cons.IH [OF ok1 this Cons.prems(4), of "acc @ [w]"] obtain wi2 where
    f: "for_each (wave_body n tm) ds (acc @ [w], wi1)
          = Some (Inr ((acc @ [w]) @ map (\<lambda>d. the (wi2 d)) ds, wi2))" and ok2: "wave_ok tm wi2" and
    sub2: "wi1 \<subseteq>\<^sub>m wi2" and d2: "\<forall>d\<in>set ds. wi2 d \<noteq> None" and
    new2: "\<forall>j. wi2 j \<noteq> None \<longrightarrow> wi1 j \<noteq> None \<or> (\<exists>d\<in>set ds. (d, j) \<in> (tm_edges tm)\<^sup>*)"
    by (elim exE conjE)
  have wd: "wi2 d = Some w" using sub2 d1 by (auto simp: map_le_def dom_def)
  have step: "wave_body n tm d (acc, wi) = Some (Inr (acc @ [w], wi1))"
    by (simp add: wave_body_def g)
  have run: "for_each (wave_body n tm) (d # ds) (acc, wi)
          = Some (Inr (acc @ map (\<lambda>d. the (wi2 d)) (d # ds), wi2))"
    by (simp add: for_each_Cons step f wd)
  have sub: "wi \<subseteq>\<^sub>m wi2" using sub1 sub2 by (rule map_le_trans)
  have defd: "\<forall>x\<in>set (d # ds). wi2 x \<noteq> None" using wd d2 by auto
  have new: "\<forall>j. wi2 j \<noteq> None \<longrightarrow> wi j \<noteq> None \<or> (\<exists>x\<in>set (d # ds). (x, j) \<in> (tm_edges tm)\<^sup>*)"
  proof (intro allI impI)
    fix j assume "wi2 j \<noteq> None"
    with new2 have "wi1 j \<noteq> None \<or> (\<exists>d\<in>set ds. (d, j) \<in> (tm_edges tm)\<^sup>*)" by blast
    then show "wi j \<noteq> None \<or> (\<exists>x\<in>set (d # ds). (x, j) \<in> (tm_edges tm)\<^sup>*)"
    proof
      assume "wi1 j \<noteq> None"
      with new1 have "wi j \<noteq> None \<or> (d, j) \<in> (tm_edges tm)\<^sup>*" by blast
      then show ?thesis by auto
    next
      assume "\<exists>d\<in>set ds. (d, j) \<in> (tm_edges tm)\<^sup>*"
      then show ?thesis by auto
    qed
  qed
  from run ok2 sub defd new show ?case by (intro exI [of _ wi2] conjI)
qed


lemma getWave_ok:
  assumes ok: "tm_ok tm"
  shows "wave_ok tm wi \<Longrightarrow> \<forall>s\<in>S. (s, i) \<in> (tm_edges tm)\<^sup>+ \<Longrightarrow> i \<in> dom tm \<Longrightarrow>
         card (dom tm - S) < n \<Longrightarrow>
         \<exists>w wi'. getWave n tm i wi = Some (Inr (w, wi')) \<and> wave_ok tm wi' \<and>
            wi \<subseteq>\<^sub>m wi' \<and> wi' i = Some w \<and>
            (\<forall>j. wi' j \<noteq> None \<longrightarrow> wi j \<noteq> None \<or> (i, j) \<in> (tm_edges tm)\<^sup>*)"
proof (induction n arbitrary: S i wi)
  case 0
  then show ?case by simp
next
  case (Suc n)
  have fin: "finite (dom tm)" and acyc: "acyclic (tm_edges tm)" using ok by (simp_all add: tm_ok_def)
  show ?case
  proof (cases "wi i")
    case (Some w)
    then have "getWave (Suc n) tm i wi = Some (Inr (w, wi))" by (simp add: getWave_Suc)
    moreover have "wi \<subseteq>\<^sub>m wi" by simp
    moreover have "\<forall>j. wi j \<noteq> None \<longrightarrow> wi j \<noteq> None \<or> (i, j) \<in> (tm_edges tm)\<^sup>*" by simp
    ultimately show ?thesis using Some Suc.prems(1)
      by (intro exI [of _ w] exI [of _ wi] conjI)
  next
    case None
    from Suc.prems(3) obtain t where t: "tm i = Some t" by auto
    with ok have sub: "set (dependsOn t) \<subseteq> dom tm" by (auto simp: tm_ok_def)
    have iS: "i \<notin> S"
    proof
      assume "i \<in> S"
      with Suc.prems(2) have "(i, i) \<in> (tm_edges tm)\<^sup>+" by blast
      with acyc show False by (auto simp: acyclic_def)
    qed
    show ?thesis
    proof (cases "dependsOn t = []")
      case True
      have g: "getWave (Suc n) tm i wi = Some (Inr (0, wi(i := Some 0)))"
        using None t True by (simp add: getWave_Suc)
      have ok0: "wave_ok tm (wi(i := Some 0))"
        using Suc.prems(1) t None by (rule wave_ok_update) (simp_all add: True)
      have sub0: "wi \<subseteq>\<^sub>m wi(i := Some 0)" using None by (auto simp: map_le_def dom_def)
      have new0: "\<forall>j. (wi(i := Some 0)) j \<noteq> None \<longrightarrow> wi j \<noteq> None \<or> (i, j) \<in> (tm_edges tm)\<^sup>*"
        by auto
      have i0: "(wi(i := Some 0)) i = Some 0" by simp
      show ?thesis
        by (intro exI [of _ 0] exI [of _ "wi(i := Some 0)"] conjI)
           (fact g, fact ok0, fact sub0, fact i0, fact new0)
    next
      case False
      let ?S1 = "insert i S"
      have edge: "\<And>d. d \<in> set (dependsOn t) \<Longrightarrow> (i, d) \<in> tm_edges tm"
        using t by (auto simp: tm_edges_def)
      have reach: "\<forall>s\<in>?S1. \<forall>d\<in>set (dependsOn t). (s, d) \<in> (tm_edges tm)\<^sup>+"
      proof (intro ballI)
        fix s d assume s: "s \<in> ?S1" and d: "d \<in> set (dependsOn t)"
        show "(s, d) \<in> (tm_edges tm)\<^sup>+"
        proof (cases "s = i")
          case True
          with edge [OF d] show ?thesis by auto
        next
          case False
          with s Suc.prems(2) have "(s, i) \<in> (tm_edges tm)\<^sup>+" by auto
          then show ?thesis using edge [OF d] by (rule trancl_into_trancl)
        qed
      qed
      have "i \<in> dom tm - S" using iS Suc.prems(3) by auto
      then have "dom tm - S = insert i (dom tm - ?S1)" by auto
      moreover have "i \<notin> dom tm - ?S1" by auto
      moreover have "finite (dom tm - ?S1)" using fin by auto
      ultimately have "card (dom tm - S) = Suc (card (dom tm - ?S1))"
        by (metis card_insert_disjoint)
      with Suc.prems(4) have c1: "card (dom tm - ?S1) < n" by simp
      have loop: "\<exists>wi'. for_each (wave_body n tm) (dependsOn t) ([], wi)
                  = Some (Inr ([] @ map (\<lambda>d. the (wi' d)) (dependsOn t), wi')) \<and>
               wave_ok tm wi' \<and> wi \<subseteq>\<^sub>m wi' \<and> (\<forall>d\<in>set (dependsOn t). wi' d \<noteq> None) \<and>
               (\<forall>j. wi' j \<noteq> None \<longrightarrow> wi j \<noteq> None \<or>
                    (\<exists>d\<in>set (dependsOn t). (d, j) \<in> (tm_edges tm)\<^sup>*))"
      proof (rule getWave_deps_loop [where S = ?S1 and acc = "[]", OF ok _ Suc.prems(1) reach sub c1])
        fix S' i' wi0
        assume "wave_ok tm wi0" "\<forall>s\<in>S'. (s, i') \<in> (tm_edges tm)\<^sup>+" "i' \<in> dom tm"
          "card (dom tm - S') < n"
        then show "\<exists>w wi'. getWave n tm i' wi0 = Some (Inr (w, wi')) \<and> wave_ok tm wi' \<and>
                    wi0 \<subseteq>\<^sub>m wi' \<and> wi' i' = Some w \<and>
                    (\<forall>j. wi' j \<noteq> None \<longrightarrow> wi0 j \<noteq> None \<or> (i', j) \<in> (tm_edges tm)\<^sup>*)"
          by (rule Suc.IH)
      qed
      from loop
      obtain wi' where
        f0: "for_each (wave_body n tm) (dependsOn t) ([], wi)
              = Some (Inr ([] @ map (\<lambda>d. the (wi' d)) (dependsOn t), wi'))" and
        ok': "wave_ok tm wi'" and sub': "wi \<subseteq>\<^sub>m wi'" and
        defd: "\<forall>d\<in>set (dependsOn t). wi' d \<noteq> None" and
        new: "\<forall>j. wi' j \<noteq> None \<longrightarrow> wi j \<noteq> None \<or> (\<exists>d\<in>set (dependsOn t). (d, j) \<in> (tm_edges tm)\<^sup>*)"
        by (elim exE conjE)
      from f0 have f: "for_each (wave_body n tm) (dependsOn t) ([], wi)
              = Some (Inr (map (\<lambda>d. the (wi' d)) (dependsOn t), wi'))" by simp
      let ?w = "Suc (Max ((\<lambda>d. the (wi' d)) ` set (dependsOn t)))"
      have g: "getWave (Suc n) tm i wi = Some (Inr (?w, wi'(i := Some ?w)))"
        using None t False f by (simp add: getWave_Suc)
      have none': "wi' i = None"
      proof (rule ccontr)
        assume "wi' i \<noteq> None"
        with new None obtain d where d: "d \<in> set (dependsOn t)" "(d, i) \<in> (tm_edges tm)\<^sup>*" by auto
        from edge [OF d(1)] d(2) have "(i, i) \<in> (tm_edges tm)\<^sup>+" by (rule rtrancl_into_trancl2)
        with acyc show False by (auto simp: acyclic_def)
      qed
      have okw: "wave_ok tm (wi'(i := Some ?w))"
        using ok' t none' defd by (rule wave_ok_update) (simp add: False)
      have subw: "wi \<subseteq>\<^sub>m wi'(i := Some ?w)"
        using sub' None by (auto simp: map_le_def dom_def)
      have neww: "\<forall>j. (wi'(i := Some ?w)) j \<noteq> None \<longrightarrow> wi j \<noteq> None \<or> (i, j) \<in> (tm_edges tm)\<^sup>*"
      proof (intro allI impI)
        fix j assume j: "(wi'(i := Some ?w)) j \<noteq> None"
        show "wi j \<noteq> None \<or> (i, j) \<in> (tm_edges tm)\<^sup>*"
        proof (cases "j = i")
          case True
          then show ?thesis by simp
        next
          case False
          with j have "wi' j \<noteq> None" by simp
          with new have "wi j \<noteq> None \<or> (\<exists>d\<in>set (dependsOn t). (d, j) \<in> (tm_edges tm)\<^sup>*)" by blast
          then show ?thesis
          proof
            assume "wi j \<noteq> None" then show ?thesis by simp
          next
            assume "\<exists>d\<in>set (dependsOn t). (d, j) \<in> (tm_edges tm)\<^sup>*"
            then obtain d where d: "d \<in> set (dependsOn t)" "(d, j) \<in> (tm_edges tm)\<^sup>*" by blast
            from edge [OF d(1)] d(2) have "(i, j) \<in> (tm_edges tm)\<^sup>*"
              by (rule converse_rtrancl_into_rtrancl)
            then show ?thesis by simp
          qed
        qed
      qed
      have iw: "(wi'(i := Some ?w)) i = Some ?w" by simp
      show ?thesis
        by (intro exI [of _ ?w] exI [of _ "wi'(i := Some ?w)"] conjI)
           (fact g, fact okw, fact subw, fact iw, fact neww)
    qed
  qed
qed

lemma getWave_all_loop:
  assumes ok: "tm_ok tm" and fuel: "card (dom tm) < n"
  shows "wave_ok tm wi \<Longrightarrow> node_id ` set xs \<subseteq> dom tm \<Longrightarrow>
         \<exists>wi'. for_each (wave_top n tm) xs wi = Some (Inr wi') \<and> wave_ok tm wi' \<and>
               wi \<subseteq>\<^sub>m wi' \<and> (\<forall>x\<in>set xs. wi' (node_id x) \<noteq> None)"
proof (induction xs arbitrary: wi)
  case Nil
  then show ?case by simp
next
  case (Cons x xs)
  have c: "card (dom tm - {}) < n" using fuel by simp
  from Cons.prems have x: "node_id x \<in> dom tm" by auto
  have e: "\<forall>s\<in>{}. (s, node_id x) \<in> (tm_edges tm)\<^sup>+" by simp
  from getWave_ok [OF ok Cons.prems(1) e x c] obtain w wi1 where
    g: "getWave n tm (node_id x) wi = Some (Inr (w, wi1))" and ok1: "wave_ok tm wi1" and
    sub1: "wi \<subseteq>\<^sub>m wi1" and x1: "wi1 (node_id x) = Some w" by (elim exE conjE)
  from Cons.prems have "node_id ` set xs \<subseteq> dom tm" by auto
  from Cons.IH [OF ok1 this] obtain wi2 where
    f: "for_each (wave_top n tm) xs wi1 = Some (Inr wi2)" and ok2: "wave_ok tm wi2" and
    sub2: "wi1 \<subseteq>\<^sub>m wi2" and d2: "\<forall>x\<in>set xs. wi2 (node_id x) \<noteq> None"
    by (elim exE conjE)
  have "wi2 (node_id x) = Some w" using sub2 x1 by (auto simp: map_le_def dom_def)
  then have defd: "\<forall>y\<in>set (x # xs). wi2 (node_id y) \<noteq> None" using d2 by auto
  have run: "for_each (wave_top n tm) (x # xs) wi = Some (Inr wi2)"
    by (simp add: for_each_Cons wave_top_def g f [unfolded wave_top_def])
  have sub: "wi \<subseteq>\<^sub>m wi2" using sub1 sub2 by (rule map_le_trans)
  from run ok2 sub defd show ?case by (intro exI [of _ wi2] conjI)
qed


subsection \<open>Placing tasks in their waves\<close>

lemma length_place_in_wave: "length (place_in_wave w x waves) = max (length waves) (Suc w)"
  by (auto simp: place_in_wave_def Let_def max_def)

lemma nth_place_in_wave:
  assumes "k < max (length waves) (Suc w)"
  shows "place_in_wave w x waves ! k =
           (if k < length waves then waves ! k else []) @ (if k = w then [x] else [])"
proof -
  let ?padded = "waves @ replicate (Suc w - length waves) []"
  have len: "length ?padded = max (length waves) (Suc w)" by (auto simp: max_def)
  have pk: "?padded ! k = (if k < length waves then waves ! k else [])"
  proof (cases "k < length waves")
    case True
    then show ?thesis by (simp add: nth_append)
  next
    case False
    with assms have "k - length waves < Suc w - length waves"
      by (auto simp: max_def split: if_splits)
    then have "replicate (Suc w - length waves) ([]::TaskNode list) ! (k - length waves) = []"
      by (rule nth_replicate)
    with False show ?thesis by (simp add: nth_append)
  qed
  have pw: "w < length ?padded" using len by (simp add: max_def)
  have "place_in_wave w x waves ! k = (?padded[w := ?padded ! w @ [x]]) ! k"
    by (simp add: place_in_wave_def Let_def)
  also have "\<dots> = (if w = k then ?padded ! w @ [x] else ?padded ! k)"
    using assms len by (simp add: nth_list_update)
  also have "\<dots> = (if k < length waves then waves ! k else []) @ (if k = w then [x] else [])"
    using pk by auto
  finally show ?thesis .
qed

lemma height_Nil [simp]: "height wi [] = 0"
  by (simp add: height_def)

lemma height_snoc:
  "height wi (pre @ [x]) = max (height wi pre) (Suc (the (wi (node_id x))))"
proof -
  let ?f = "\<lambda>t. Suc (the (wi (node_id t)))"
  have "insert 0 (?f ` set (pre @ [x])) = insert (?f x) (insert 0 (?f ` set pre))" by auto
  moreover have "Max (insert (?f x) (insert 0 (?f ` set pre))) = max (?f x) (Max (insert 0 (?f ` set pre)))"
    by (rule Max_insert) auto
  ultimately show ?thesis by (simp add: height_def max.commute)
qed

lemma height_ge: "t \<in> set xs \<Longrightarrow> Suc (the (wi (node_id t))) \<le> height wi xs"
  unfolding height_def by (rule Max_ge) auto

lemma place_all_groups:
  "\<forall>t\<in>set xs. wi (node_id t) \<noteq> None \<Longrightarrow> length waves = height wi pre \<Longrightarrow>
   \<forall>k<length waves. waves ! k = filter (\<lambda>t. wi (node_id t) = Some k) pre \<Longrightarrow>
   length (place_all wi xs waves) = height wi (pre @ xs) \<and>
   (\<forall>k<height wi (pre @ xs).
       place_all wi xs waves ! k = filter (\<lambda>t. wi (node_id t) = Some k) (pre @ xs))"
proof (induction xs arbitrary: pre waves)
  case Nil
  then show ?case by simp
next
  case (Cons x xs)
  from Cons.prems(1) obtain w where w: "wi (node_id x) = Some w" by auto
  let ?waves1 = "place_in_wave w x waves"
  have l1: "length ?waves1 = height wi (pre @ [x])"
    using Cons.prems(2) w by (simp add: length_place_in_wave height_snoc)
  have n1: "\<forall>k<length ?waves1. ?waves1 ! k = filter (\<lambda>t. wi (node_id t) = Some k) (pre @ [x])"
  proof (intro allI impI)
    fix k assume "k < length ?waves1"
    then have k: "k < max (length waves) (Suc w)" by (simp add: length_place_in_wave)
    have old: "(if k < length waves then waves ! k else []) = filter (\<lambda>t. wi (node_id t) = Some k) pre"
    proof (cases "k < length waves")
      case True
      with Cons.prems(3) show ?thesis by simp
    next
      case False
      have "\<forall>t\<in>set pre. wi (node_id t) \<noteq> Some k"
      proof
        fix t assume "t \<in> set pre"
        then have "Suc (the (wi (node_id t))) \<le> height wi pre" by (rule height_ge)
        with False Cons.prems(2) have "the (wi (node_id t)) \<noteq> k" by simp
        then show "wi (node_id t) \<noteq> Some k" by auto
      qed
      then have "filter (\<lambda>t. wi (node_id t) = Some k) pre = []" by (simp add: filter_empty_conv)
      with False show ?thesis by simp
    qed
    have new: "(if k = w then [x] else []) = filter (\<lambda>t. wi (node_id t) = Some k) [x]"
      using w by auto
    show "?waves1 ! k = filter (\<lambda>t. wi (node_id t) = Some k) (pre @ [x])"
      unfolding nth_place_in_wave [OF k] old new by simp
  qed
  from Cons.prems(1) have d: "\<forall>t\<in>set xs. wi (node_id t) \<noteq> None" by simp
  from Cons.IH [OF d l1 n1] have
    "length (place_all wi xs ?waves1) = height wi ((pre @ [x]) @ xs) \<and>
     (\<forall>k<height wi ((pre @ [x]) @ xs).
        place_all wi xs ?waves1 ! k = filter (\<lambda>t. wi (node_id t) = Some k) ((pre @ [x]) @ xs))" .
  moreover have "place_all wi (x # xs) waves = place_all wi xs ?waves1" using w by simp
  moreover have "(pre @ [x]) @ xs = pre @ x # xs" by simp
  ultimately show ?case by simp
qed

lemma mset_concat_update:
  "i < length xs \<Longrightarrow> mset (concat (xs[i := xs ! i @ [y]])) = add_mset y (mset (concat xs))"
proof (induction xs arbitrary: i)
  case Nil
  then show ?case by simp
next
  case (Cons a xs)
  then show ?case by (cases i) simp_all
qed

lemma mset_concat_place_in_wave:
  "mset (concat (place_in_wave w x waves)) = add_mset x (mset (concat waves))"
proof -
  let ?padded = "waves @ replicate (Suc w - length waves) []"
  have pw: "w < length ?padded" by auto
  have "concat ?padded = concat waves" by simp
  with mset_concat_update [OF pw, of x] show ?thesis
    by (simp add: place_in_wave_def Let_def)
qed

lemma mset_concat_place_all:
  "\<forall>t\<in>set xs. wi (node_id t) \<noteq> None \<Longrightarrow>
   mset (concat (place_all wi xs waves)) = mset xs + mset (concat waves)"
proof (induction xs arbitrary: waves)
  case Nil
  then show ?case by simp
next
  case (Cons x xs)
  from Cons.prems obtain w where w: "wi (node_id x) = Some w" by auto
  from Cons.prems have "\<forall>t\<in>set xs. wi (node_id t) \<noteq> None" by simp
  from Cons.IH [OF this, of "place_in_wave w x waves"] w show ?case
    by (simp add: mset_concat_place_in_wave)
qed

subsection \<open>Dependency chains\<close>

lemma chain_upper:
  assumes rec: "\<forall>t\<in>set ts. W (node_id t) =
                  (if dependsOn t = [] then 0 else Suc (Max (W ` set (dependsOn t))))"
  shows "is_chain (dep_edges ts) (x # c) \<Longrightarrow> length c \<le> W x"
proof (induction c arbitrary: x)
  case Nil
  then show ?case by simp
next
  case (Cons y r)
  then have e: "(x, y) \<in> dep_edges ts" and ch: "is_chain (dep_edges ts) (y # r)" by simp_all
  from e obtain t where t: "t \<in> set ts" "node_id t = x" "y \<in> set (dependsOn t)"
    by (auto simp: dep_edges_def)
  then have ne: "dependsOn t \<noteq> []" by auto
  with rec t have "W x = Suc (Max (W ` set (dependsOn t)))" by auto
  moreover have "W y \<le> Max (W ` set (dependsOn t))" using t(3) by (intro Max_ge) auto
  moreover have "length r \<le> W y" using ch by (rule Cons.IH)
  ultimately show ?case by simp
qed

lemma chain_lower:
  assumes rec: "\<forall>t\<in>set ts. W (node_id t) =
                  (if dependsOn t = [] then 0 else Suc (Max (W ` set (dependsOn t))))"
      and res: "\<forall>t\<in>set ts. set (dependsOn t) \<subseteq> node_id ` set ts"
  shows "t \<in> set ts \<Longrightarrow> W (node_id t) = k \<Longrightarrow>
         \<exists>c. set c \<subseteq> node_id ` set ts \<and> is_chain (dep_edges ts) (node_id t # c) \<and> length c = k"
proof (induction k arbitrary: t)
  case 0
  have "set [] \<subseteq> node_id ` set ts \<and> is_chain (dep_edges ts) (node_id t # []) \<and> length ([]::string list) = 0"
    by simp
  then show ?case by blast
next
  case (Suc m)
  have ne: "dependsOn t \<noteq> []"
  proof
    assume "dependsOn t = []"
    with rec Suc.prems have "W (node_id t) = 0" by auto
    with Suc.prems show False by simp
  qed
  with rec Suc.prems have "Max (W ` set (dependsOn t)) = m" by auto
  moreover have "Max (W ` set (dependsOn t)) \<in> W ` set (dependsOn t)"
    using ne by (intro Max_in) auto
  ultimately obtain d where d: "d \<in> set (dependsOn t)" "W d = m" by auto
  with res Suc.prems(1) obtain u where u: "u \<in> set ts" "node_id u = d" by auto
  from Suc.IH [OF u(1)] u(2) d(2) obtain c where
    c: "set c \<subseteq> node_id ` set ts" "is_chain (dep_edges ts) (d # c)" "length c = m" by auto
  have e: "(node_id t, d) \<in> dep_edges ts" using Suc.prems(1) d(1) by (auto simp: dep_edges_def)
  have "set (d # c) \<subseteq> node_id ` set ts \<and> is_chain (dep_edges ts) (node_id t # d # c) \<and>
        length (d # c) = Suc m"
    using c e u by auto
  then show ?case by blast
qed


subsection \<open>computeWaves\<close>

text \<open>
  Claim C6. For a task list with unique ids, resolvable dependencies and no cycle,
  \<open>computeWaves\<close> returns (given fuel beyond the number of tasks) groups that partition
  the tasks: group \<open>k\<close> holds exactly the tasks of wave \<open>k\<close>, where the wave of a task is
  0 if it has no dependencies and one more than the largest wave of its dependencies
  otherwise; and the number of groups is the length of the longest dependency chain.
\<close>

theorem computeWaves_layers:
  assumes wf: "well_formed ts" and fuel: "length ts < fuel"
  shows "\<exists>waves wave.
           computeWaves fuel ts = Some (Inr waves) \<and>
           mset (concat waves) = mset ts \<and>
           (\<forall>k<length waves. waves ! k = filter (\<lambda>t. wave (node_id t) = k) ts) \<and>
           (\<forall>t\<in>set ts. wave (node_id t) < length waves \<and>
                wave (node_id t) =
                  (if dependsOn t = [] then 0 else Suc (Max (wave ` set (dependsOn t))))) \<and>
           (\<forall>c. dep_chain ts c \<longrightarrow> length c \<le> length waves) \<and>
           (\<exists>c. dep_chain ts c \<and> length c = length waves)"
proof -
  let ?tm = "taskMap ts"
  from wf have dist: "distinct (map node_id ts)" and
    res: "\<forall>t\<in>set ts. set (dependsOn t) \<subseteq> set (map node_id ts)" by (simp_all add: well_formed_def)
  have ok: "tm_ok ?tm" using wf by (rule well_formed_tm_ok)
  have "card (set (map node_id ts)) \<le> length (map node_id ts)" by (rule card_length)
  with fuel have c: "card (dom ?tm) < fuel" by (simp add: taskMap_dom)
  have ok0: "wave_ok ?tm (\<lambda>i. None)" by (simp add: wave_ok_def)
  have sub: "node_id ` set ts \<subseteq> dom ?tm" by (simp add: taskMap_dom)
  from getWave_all_loop [OF ok c ok0 sub] obtain wi where
    f: "for_each (wave_top fuel ?tm) ts (\<lambda>i. None) = Some (Inr wi)" and
    okw: "wave_ok ?tm wi" and defd: "\<forall>x\<in>set ts. wi (node_id x) \<noteq> None"
    by (elim exE conjE)
  let ?waves = "place_all wi ts []"
  let ?wave = "\<lambda>i. the (wi i)"
  have run: "computeWaves fuel ts = Some (Inr ?waves)"
    using f by (simp add: computeWaves_def wave_top_def)
  have m: "mset (concat ?waves) = mset ts"
    using mset_concat_place_all [OF defd, of "[]"] by simp
  have "length ([]::TaskNode list list) = height wi []" by simp
  moreover have "\<forall>k<length ([]::TaskNode list list).
       ([]::TaskNode list list) ! k = filter (\<lambda>t. wi (node_id t) = Some k) []" by simp
  ultimately have
    "length ?waves = height wi ([] @ ts) \<and>
     (\<forall>k<height wi ([] @ ts). ?waves ! k = filter (\<lambda>t. wi (node_id t) = Some k) ([] @ ts))"
    by (rule place_all_groups [OF defd])
  then have len: "length ?waves = height wi ts" and
    grp: "\<forall>k<height wi ts. ?waves ! k = filter (\<lambda>t. wi (node_id t) = Some k) ts" by simp_all
  have groups: "\<forall>k<length ?waves. ?waves ! k = filter (\<lambda>t. ?wave (node_id t) = k) ts"
  proof (intro allI impI)
    fix k assume "k < length ?waves"
    with len grp have "?waves ! k = filter (\<lambda>t. wi (node_id t) = Some k) ts" by simp
    also have "\<dots> = filter (\<lambda>t. ?wave (node_id t) = k) ts"
      using defd by (intro filter_cong) auto
    finally show "?waves ! k = filter (\<lambda>t. ?wave (node_id t) = k) ts" .
  qed
  have rec: "\<forall>t\<in>set ts. ?wave (node_id t) =
               (if dependsOn t = [] then 0 else Suc (Max (?wave ` set (dependsOn t))))"
  proof
    fix t assume t: "t \<in> set ts"
    with defd obtain w where w: "wi (node_id t) = Some w" by auto
    with okw obtain u where u: "?tm (node_id t) = Some u"
      "w = (if dependsOn u = [] then 0 else Suc (Max ((\<lambda>d. the (wi d)) ` set (dependsOn u))))"
      unfolding wave_ok_def by blast
    have "?tm (node_id t) = Some t" using dist t by (rule taskMap_distinct)
    with u(1) have "u = t" by simp
    with u(2) w show "?wave (node_id t) =
               (if dependsOn t = [] then 0 else Suc (Max (?wave ` set (dependsOn t))))" by simp
  qed
  have below: "\<forall>t\<in>set ts. ?wave (node_id t) < length ?waves"
  proof
    fix t assume "t \<in> set ts"
    then have "Suc (?wave (node_id t)) \<le> height wi ts" by (rule height_ge)
    with len show "?wave (node_id t) < length ?waves" by simp
  qed
  have layers: "\<forall>t\<in>set ts. ?wave (node_id t) < length ?waves \<and>
                ?wave (node_id t) =
                  (if dependsOn t = [] then 0 else Suc (Max (?wave ` set (dependsOn t))))"
    using below rec by blast
  have res': "\<forall>t\<in>set ts. set (dependsOn t) \<subseteq> node_id ` set ts" using res by simp
  have upper: "\<forall>c. dep_chain ts c \<longrightarrow> length c \<le> length ?waves"
  proof (intro allI impI)
    fix c assume ch: "dep_chain ts c"
    show "length c \<le> length ?waves"
    proof (cases c)
      case Nil
      then show ?thesis by simp
    next
      case (Cons x r)
      with ch have "x \<in> node_id ` set ts" and "is_chain (dep_edges ts) (x # r)"
        by (auto simp: dep_chain_def)
      then obtain t where t: "t \<in> set ts" "node_id t = x" by auto
      from chain_upper [OF rec \<open>is_chain (dep_edges ts) (x # r)\<close>] have "length r \<le> ?wave x" .
      moreover from below t have "?wave x < length ?waves" by auto
      ultimately show ?thesis using Cons by simp
    qed
  qed
  have lower: "\<exists>c. dep_chain ts c \<and> length c = length ?waves"
  proof (cases "ts = []")
    case True
    then have "dep_chain ts [] \<and> length ([]::string list) = length ?waves"
      by (simp add: dep_chain_def)
    then show ?thesis by blast
  next
    case False
    let ?f = "\<lambda>t. Suc (the (wi (node_id t)))"
    have "Max (insert 0 (?f ` set ts)) \<in> insert 0 (?f ` set ts)" by (intro Max_in) auto
    moreover have "Max (insert 0 (?f ` set ts)) \<noteq> 0"
    proof -
      from False obtain t where "t \<in> set ts" by (cases ts) auto
      then have "?f t \<le> Max (insert 0 (?f ` set ts))" by (intro Max_ge) auto
      then show ?thesis by simp
    qed
    ultimately obtain t where t: "t \<in> set ts" "height wi ts = Suc (?wave (node_id t))"
      by (auto simp: height_def)
    from chain_lower [OF rec res' t(1) refl] obtain c where
      c: "set c \<subseteq> node_id ` set ts" "is_chain (dep_edges ts) (node_id t # c)"
         "length c = ?wave (node_id t)" by (elim exE conjE)
    have "dep_chain ts (node_id t # c)" using c t(1) by (simp add: dep_chain_def)
    moreover have "length (node_id t # c) = length ?waves" using c(3) t(2) len by simp
    ultimately show ?thesis by blast
  qed
  show ?thesis
    by (intro exI [of _ ?waves] exI [of _ ?wave] conjI)
       (fact run, fact m, fact groups, fact layers, fact upper, fact lower)
qed

theorem computeWaves_layers_witness:
  "well_formed chain3 \<and> length chain3 < 4 \<and>
   computeWaves 4 chain3
     = Some (Inr [[task ''t1'' []], [task ''t2'' [''t1'']], [task ''t3'' [''t2'']]]) \<and>
   mset (concat [[task ''t1'' []], [task ''t2'' [''t1'']], [task ''t3'' [''t2'']]]) = mset chain3"
proof -
  have l: "length chain3 < 4" by (simp add: chain3_def)
  have ev: "computeWaves 4 chain3
     = Some (Inr [[task ''t1'' []], [task ''t2'' [''t1'']], [task ''t3'' [''t2'']]])"
    by (simp add: computeWaves_def chain3_def for_each_def loop_step_def taskMap_def task_def
          getWave.simps place_in_wave_def eval_nat_numeral)
  from computeWaves_layers [OF chain3_well_formed l]
  obtain waves where o: "computeWaves 4 chain3 = Some (Inr waves)" "mset (concat waves) = mset chain3"
    by (elim exE conjE)
  from o(1) ev have "waves = [[task ''t1'' []], [task ''t2'' [''t1'']], [task ''t3'' [''t2'']]]"
    by simp
  with o(2) have "mset (concat [[task ''t1'' []], [task ''t2'' [''t1'']], [task ''t3'' [''t2'']]])
      = mset chain3" by simp
  with chain3_well_formed l ev show ?thesis by (intro conjI)
qed

section \<open>Validation of the task graph\<close>

subsection \<open>strongConnect\<close>

lemma strongConnect_Suc:
  "strongConnect (Suc n) adj i s =
     (case for_each (sc_body n adj i) (successors adj i) (enter i s) of
        None \<Rightarrow> None
      | Some (Inl e) \<Rightarrow> Some (Inl e)
      | Some (Inr s') \<Rightarrow> map_option Inr (finish i s'))"
  by (simp add: sc_body_def split: option.splits sum.splits)

declare strongConnect.simps(2) [simp del]

lemma enter_simps [simp]:
  "indices (enter i s) = (indices s)(i := Some (index s))"
  "lowlinks (enter i s) = (lowlinks s)(i := Some (index s))"
  "index (enter i s) = Suc (index s)"
  "stack (enter i s) = i # stack s"
  "onStack (enter i s) = insert i (onStack s)"
  "cycleNodes (enter i s) = cycleNodes s"
  by (simp_all add: enter_def)

lemma lower_simps [simp]:
  "indices (lower i n s) = indices s"
  "lowlinks (lower i n s) = (lowlinks s)(i := Some (min (num (lowlinks s i)) n))"
  "index (lower i n s) = index s"
  "stack (lower i n s) = stack s"
  "onStack (lower i n s) = onStack s"
  "cycleNodes (lower i n s) = cycleNodes s"
  by (simp_all add: lower_def)

lemma num_Some [simp]: "num (Some k) = k"
  by (simp add: num_def)

lemma pop_component_split:
  "i \<notin> set seg \<Longrightarrow> pop_component i (seg @ i # rest) = Some (seg @ [i], rest)"
  by (induction seg) auto

lemma finish_root:
  assumes "lowlinks s i = indices s i" "stack s = seg @ i # rest" "i \<notin> set seg"
  shows "finish i s =
           Some (s\<lparr>stack := rest, onStack := onStack s - set (seg @ [i]),
                   cycleNodes := (if seg \<noteq> [] then cycleNodes s @ seg @ [i] else cycleNodes s)\<rparr>)"
  using assms by (simp add: finish_def pop_component_split)

lemma finish_nonroot: "lowlinks s i \<noteq> indices s i \<Longrightarrow> finish i s = Some s"
  by (simp add: finish_def)

subsection \<open>Graphs without cycles\<close>

lemma aloop_refl: "ainv sk \<Longrightarrow> stack sk = i # rest \<Longrightarrow> lowlinks sk i = Some k \<Longrightarrow> aloop i rest k sk sk"
  by (simp add: aloop_def)

lemma aloop_trans:
  assumes "aloop i rest k s1 s2" "aloop i rest k s2 s3"
  shows "aloop i rest k s1 s3"
proof -
  from assms have d12: "dom (indices s1) \<subseteq> dom (indices s2)" and d23: "dom (indices s2) \<subseteq> dom (indices s3)"
    by (simp_all add: aloop_def)
  have l: "\<forall>x\<in>dom (indices s1). x \<noteq> i \<longrightarrow> lowlinks s3 x = lowlinks s1 x"
  proof (intro ballI impI)
    fix x assume x: "x \<in> dom (indices s1)" "x \<noteq> i"
    with d12 have "x \<in> dom (indices s2)" by auto
    with assms(2) x(2) have "lowlinks s3 x = lowlinks s2 x" by (simp add: aloop_def)
    moreover from assms(1) x have "lowlinks s2 x = lowlinks s1 x" by (simp add: aloop_def)
    ultimately show "lowlinks s3 x = lowlinks s1 x" by simp
  qed
  have n: "\<forall>x\<in>dom (indices s1). indices s3 x = indices s1 x"
  proof
    fix x assume x: "x \<in> dom (indices s1)"
    with d12 have "x \<in> dom (indices s2)" by auto
    with assms(2) have "indices s3 x = indices s2 x" by (simp add: aloop_def)
    moreover from assms(1) x have "indices s2 x = indices s1 x" by (simp add: aloop_def)
    ultimately show "indices s3 x = indices s1 x" by simp
  qed
  have "index s1 \<le> index s3" using assms by (simp add: aloop_def)
  moreover have "dom (indices s1) \<subseteq> dom (indices s3)" using d12 d23 by blast
  moreover have "ainv s3" "stack s3 = i # rest" "lowlinks s3 i = Some k"
    using assms(2) by (simp_all add: aloop_def)
  ultimately show ?thesis using l n by (simp add: aloop_def)
qed

lemma card_Diff_mono: "finite V \<Longrightarrow> A \<subseteq> B \<Longrightarrow> card (V - B) \<le> card (V - A)"
  by (intro card_mono) auto

lemma sc_acyclic_step:
  assumes acyc: "acyclic (adj_edges adj)"
      and IH: "\<And>s i. ainv s \<Longrightarrow> indices s i = None \<Longrightarrow> i \<in> V \<Longrightarrow>
                 \<forall>x\<in>set (stack s). (x, i) \<in> (adj_edges adj)\<^sup>+ \<Longrightarrow>
                 card (V - dom (indices s)) < n \<Longrightarrow>
                 \<exists>s'. strongConnect n adj i s = Some (Inr s') \<and> apost s i s'"
      and inv: "ainv sk" and st: "stack sk = i # rest"
      and reach: "\<forall>x\<in>set rest. (x, i) \<in> (adj_edges adj)\<^sup>+"
      and low: "lowlinks sk i = Some k" and idx: "indices sk i = Some k"
      and d: "d \<in> set (successors adj i)" and dV: "d \<in> V"
      and fuel: "card (V - dom (indices sk)) < n"
  shows "\<exists>s1. sc_body n adj i d sk = Some (Inr s1) \<and> aloop i rest k sk s1 \<and> d \<in> dom (indices s1)"
proof -
  have e: "(i, d) \<in> adj_edges adj" using d by (simp add: adj_edges_def)
  have klt: "k < index sk" using inv idx by (auto simp: ainv_def)
  show ?thesis
  proof (cases "indices sk d = None")
    case True
    have reach': "\<forall>x\<in>set (stack sk). (x, d) \<in> (adj_edges adj)\<^sup>+"
    proof
      fix x assume "x \<in> set (stack sk)"
      with st have "x = i \<or> x \<in> set rest" by auto
      then show "(x, d) \<in> (adj_edges adj)\<^sup>+"
      proof
        assume "x = i" with e show ?thesis by auto
      next
        assume "x \<in> set rest"
        with reach have "(x, i) \<in> (adj_edges adj)\<^sup>+" by blast
        then show ?thesis using e by (rule trancl_into_trancl)
      qed
    qed
    from IH [OF inv True dV reach' fuel] obtain s' where
      sc: "strongConnect n adj d sk = Some (Inr s')" and post: "apost sk d s'"
      by (elim exE conjE)
    from post have inv': "ainv s'" and st': "stack s' = stack sk" and
      dom': "dom (indices sk) \<subseteq> dom (indices s')" and dd: "d \<in> dom (indices s')" and
      old': "\<forall>x\<in>dom (indices sk). lowlinks s' x = lowlinks sk x \<and> indices s' x = indices sk x" and
      lowd: "lowlinks s' d = Some (index sk)" and idx': "index sk < index s'"
      by (simp_all add: apost_def)
    let ?s1 = "lower i (num (lowlinks s' d)) s'"
    have body: "sc_body n adj i d sk = Some (Inr ?s1)"
      using True sc by (simp add: sc_body_def)
    have idom: "i \<in> dom (indices sk)" using idx by auto
    with old' low have li: "lowlinks s' i = Some k" by auto
    have low1: "lowlinks ?s1 i = Some k" using li lowd klt by (simp add: min_def)
    have inv1: "ainv ?s1" using inv' by (simp add: ainv_def)
    have oldl: "\<forall>x\<in>dom (indices sk). x \<noteq> i \<longrightarrow> lowlinks ?s1 x = lowlinks sk x"
      using old' by simp
    have oldn: "\<forall>x\<in>dom (indices sk). indices ?s1 x = indices sk x"
      using old' by simp
    have "aloop i rest k sk ?s1"
      unfolding aloop_def using inv1 st st' dom' oldl oldn low1 idx' by simp
    moreover have "d \<in> dom (indices ?s1)" using dd by simp
    ultimately show ?thesis using body by blast
  next
    case False
    show ?thesis
    proof (cases "d \<in> onStack sk")
      case True
      with inv st have "d = i \<or> d \<in> set rest" by (auto simp: ainv_def)
      then have "(d, d) \<in> (adj_edges adj)\<^sup>+"
      proof
        assume "d = i" with e show ?thesis by auto
      next
        assume "d \<in> set rest"
        with reach have "(d, i) \<in> (adj_edges adj)\<^sup>+" by blast
        then show ?thesis using e by (rule trancl_into_trancl)
      qed
      with acyc have False by (auto simp: acyclic_def)
      then show ?thesis ..
    next
      case nos: False
      have body: "sc_body n adj i d sk = Some (Inr sk)"
        using False nos by (auto simp: sc_body_def)
      moreover have "aloop i rest k sk sk" using inv st low by (rule aloop_refl)
      moreover have "d \<in> dom (indices sk)" using False by auto
      ultimately show ?thesis by blast
    qed
  qed
qed

lemma sc_acyclic_loop:
  assumes acyc: "acyclic (adj_edges adj)" and fin: "finite V"
      and IH: "\<And>s i. ainv s \<Longrightarrow> indices s i = None \<Longrightarrow> i \<in> V \<Longrightarrow>
                 \<forall>x\<in>set (stack s). (x, i) \<in> (adj_edges adj)\<^sup>+ \<Longrightarrow>
                 card (V - dom (indices s)) < n \<Longrightarrow>
                 \<exists>s'. strongConnect n adj i s = Some (Inr s') \<and> apost s i s'"
      and reach: "\<forall>x\<in>set rest. (x, i) \<in> (adj_edges adj)\<^sup>+"
  shows "ainv sk \<Longrightarrow> stack sk = i # rest \<Longrightarrow>
         lowlinks sk i = Some k \<Longrightarrow> indices sk i = Some k \<Longrightarrow>
         set ds \<subseteq> set (successors adj i) \<Longrightarrow> set ds \<subseteq> V \<Longrightarrow>
         card (V - dom (indices sk)) < n \<Longrightarrow>
         \<exists>sk'. for_each (sc_body n adj i) ds sk = Some (Inr sk') \<and> aloop i rest k sk sk' \<and>
               set ds \<subseteq> dom (indices sk')"
proof (induction ds arbitrary: sk)
  case Nil
  then have "aloop i rest k sk sk" by (intro aloop_refl)
  then show ?case by simp
next
  case (Cons d ds)
  from Cons.prems have d: "d \<in> set (successors adj i)" "d \<in> V" by auto
  have "\<exists>s1. sc_body n adj i d sk = Some (Inr s1) \<and> aloop i rest k sk s1 \<and> d \<in> dom (indices s1)"
  proof (rule sc_acyclic_step [OF acyc _ Cons.prems(1,2) reach Cons.prems(3,4) d Cons.prems(7)])
    fix s i'
    assume "ainv s" "indices s i' = None" "i' \<in> V"
      "\<forall>x\<in>set (stack s). (x, i') \<in> (adj_edges adj)\<^sup>+" "card (V - dom (indices s)) < n"
    then show "\<exists>s'. strongConnect n adj i' s = Some (Inr s') \<and> apost s i' s'" by (rule IH)
  qed
  then obtain s1 where body: "sc_body n adj i d sk = Some (Inr s1)" and
    l1: "aloop i rest k sk s1" and d1: "d \<in> dom (indices s1)" by (elim exE conjE)
  from l1 have inv1: "ainv s1" and st1: "stack s1 = i # rest" and low1: "lowlinks s1 i = Some k"
    and dom1: "dom (indices sk) \<subseteq> dom (indices s1)"
    and n1: "\<forall>x\<in>dom (indices sk). indices s1 x = indices sk x"
    by (simp_all add: aloop_def)
  have "i \<in> dom (indices sk)" using Cons.prems(4) by auto
  with n1 Cons.prems(4) have idx1: "indices s1 i = Some k" by auto
  have "card (V - dom (indices s1)) \<le> card (V - dom (indices sk))"
    using fin dom1 by (rule card_Diff_mono)
  with Cons.prems(7) have fuel1: "card (V - dom (indices s1)) < n" by simp
  from Cons.prems have ds: "set ds \<subseteq> set (successors adj i)" "set ds \<subseteq> V" by auto
  from Cons.IH [OF inv1 st1 low1 idx1 ds fuel1] obtain sk' where
    f: "for_each (sc_body n adj i) ds s1 = Some (Inr sk')" and l2: "aloop i rest k s1 sk'" and
    dsin: "set ds \<subseteq> dom (indices sk')" by (elim exE conjE)
  have run: "for_each (sc_body n adj i) (d # ds) sk = Some (Inr sk')"
    by (simp add: for_each_Cons body f)
  have l: "aloop i rest k sk sk'" using l1 l2 by (rule aloop_trans)
  from l2 have "dom (indices s1) \<subseteq> dom (indices sk')" by (simp add: aloop_def)
  with d1 dsin have "set (d # ds) \<subseteq> dom (indices sk')" by auto
  with run l show ?case by blast
qed

lemma sc_acyclic:
  assumes acyc: "acyclic (adj_edges adj)" and fin: "finite V"
      and closed: "\<forall>i\<in>V. set (successors adj i) \<subseteq> V"
  shows "ainv s \<Longrightarrow> indices s i = None \<Longrightarrow> i \<in> V \<Longrightarrow>
         \<forall>x\<in>set (stack s). (x, i) \<in> (adj_edges adj)\<^sup>+ \<Longrightarrow>
         card (V - dom (indices s)) < n \<Longrightarrow>
         \<exists>s'. strongConnect n adj i s = Some (Inr s') \<and> apost s i s'"
proof (induction n arbitrary: s i)
  case 0
  then show ?case by simp
next
  case (Suc n)
  let ?s0 = "enter i s"
  let ?k = "index s"
  have inv0: "ainv ?s0" using Suc.prems(1) by (auto simp: ainv_def less_Suc_eq)
  have "i \<in> V - dom (indices s)" using Suc.prems(2,3) by auto
  then have "V - dom (indices s) = insert i (V - dom (indices ?s0))" by auto
  moreover have "i \<notin> V - dom (indices ?s0)" by simp
  moreover have "finite (V - dom (indices ?s0))" using fin by simp
  ultimately have "card (V - dom (indices s)) = Suc (card (V - dom (indices ?s0)))"
    by (metis card_insert_disjoint)
  with Suc.prems(5) have fuel0: "card (V - dom (indices ?s0)) < n" by simp
  have succV: "set (successors adj i) \<subseteq> V" using closed Suc.prems(3) by blast
  have "\<exists>sk'. for_each (sc_body n adj i) (successors adj i) ?s0 = Some (Inr sk') \<and>
            aloop i (stack s) ?k ?s0 sk' \<and> set (successors adj i) \<subseteq> dom (indices sk')"
  proof (rule sc_acyclic_loop [OF acyc fin _ Suc.prems(4) inv0 _ _ _ _ succV fuel0])
    fix s' i'
    assume "ainv s'" "indices s' i' = None" "i' \<in> V"
      "\<forall>x\<in>set (stack s'). (x, i') \<in> (adj_edges adj)\<^sup>+" "card (V - dom (indices s')) < n"
    then show "\<exists>s''. strongConnect n adj i' s' = Some (Inr s'') \<and> apost s' i' s''" by (rule Suc.IH)
  qed simp_all
  then obtain sk where f: "for_each (sc_body n adj i) (successors adj i) ?s0 = Some (Inr sk)" and
    l: "aloop i (stack s) ?k ?s0 sk" by (elim exE conjE)
  from l have invk: "ainv sk" and stk: "stack sk = i # stack s" and lowk: "lowlinks sk i = Some ?k"
    and domk: "dom (indices ?s0) \<subseteq> dom (indices sk)"
    and oldl: "\<forall>x\<in>dom (indices ?s0). x \<noteq> i \<longrightarrow> lowlinks sk x = lowlinks ?s0 x"
    and oldn: "\<forall>x\<in>dom (indices ?s0). indices sk x = indices ?s0 x"
    and idxk: "index ?s0 \<le> index sk"
    by (simp_all add: aloop_def)
  have ink: "indices sk i = Some ?k" using oldn by simp
  have root: "lowlinks sk i = indices sk i" using lowk ink by simp
  have stk': "stack sk = [] @ i # stack s" using stk by simp
  let ?s' = "sk\<lparr>stack := stack s, onStack := onStack sk - set ([] @ [i]),
                  cycleNodes := (if ([]::string list) \<noteq> [] then cycleNodes sk @ [] @ [i]
                                 else cycleNodes sk)\<rparr>"
  have fin_eq: "finish i sk = Some ?s'"
    using root stk' by (rule finish_root) simp
  have run: "strongConnect (Suc n) adj i s = Some (Inr ?s')"
    by (simp add: strongConnect_Suc f fin_eq)
  have inot: "i \<notin> set (stack s)" using Suc.prems(1,2) by (auto simp: ainv_def)
  have inv': "ainv ?s'"
    using invk stk inot Suc.prems(1) domk by (auto simp: ainv_def)
  have old: "\<forall>x\<in>dom (indices s). lowlinks ?s' x = lowlinks s x \<and> indices ?s' x = indices s x"
  proof
    fix x assume x: "x \<in> dom (indices s)"
    with Suc.prems(2) have xi: "x \<noteq> i" by auto
    from x have x0: "x \<in> dom (indices ?s0)" by simp
    from oldl x0 xi have "lowlinks sk x = lowlinks s x" by simp
    moreover from oldn x0 xi have "indices sk x = indices s x" by simp
    ultimately show "lowlinks ?s' x = lowlinks s x \<and> indices ?s' x = indices s x"
      by simp
  qed
  have "apost s i ?s'"
    unfolding apost_def
  proof (intro conjI)
    show "ainv ?s'" by (rule inv')
    show "stack ?s' = stack s" by simp
    show "dom (indices s) \<subseteq> dom (indices ?s')" using domk by auto
    show "i \<in> dom (indices ?s')" using ink by auto
    show "\<forall>x\<in>dom (indices s). lowlinks ?s' x = lowlinks s x \<and> indices ?s' x = indices s x"
      by (rule old)
    show "lowlinks ?s' i = Some (index s)" using lowk by simp
    show "index s < index ?s'" using idxk by simp
  qed
  with run show ?case by blast
qed

subsection \<open>validateDag on well-formed lists\<close>

lemma adjacency_distinct:
  assumes "distinct (map node_id ts)" "t \<in> set ts"
  shows "adjacency ts (node_id t) = Some (dependsOn t)"
proof -
  have "distinct (map fst (rev (map (\<lambda>t. (node_id t, dependsOn t)) ts)))"
    using assms(1) by (simp add: rev_map [symmetric] comp_def distinct_rev)
  moreover have "(node_id t, dependsOn t) \<in> set (rev (map (\<lambda>t. (node_id t, dependsOn t)) ts))"
    using assms(2) by auto
  ultimately show ?thesis unfolding adjacency_def by (rule map_of_is_SomeI)
qed

lemma adjacency_dom: "dom (adjacency ts) = set (map node_id ts)"
  unfolding adjacency_def by (auto simp: dom_map_of_conv_image_fst image_comp comp_def)

lemma adj_edges_adjacency:
  assumes "distinct (map node_id ts)"
  shows "adj_edges (adjacency ts) = dep_edges ts"
proof (intro set_eqI iffI)
  fix e assume e: "e \<in> adj_edges (adjacency ts)"
  obtain i d where ed: "e = (i, d)" by (cases e)
  from e ed have d: "d \<in> set (successors (adjacency ts) i)" by (simp add: adj_edges_def)
  have "adjacency ts i \<noteq> None"
  proof
    assume "adjacency ts i = None"
    with d show False by (simp add: successors_def)
  qed
  then have "i \<in> dom (adjacency ts)" by (simp add: dom_def)
  then have "i \<in> set (map node_id ts)" by (simp only: adjacency_dom)
  then obtain t where t: "t \<in> set ts" "node_id t = i" by auto
  with assms have "adjacency ts i = Some (dependsOn t)" using adjacency_distinct by blast
  with d have "d \<in> set (dependsOn t)" by (simp add: successors_def)
  with t ed show "e \<in> dep_edges ts" by (auto simp: dep_edges_def)
next
  fix e assume e: "e \<in> dep_edges ts"
  obtain i d where ed: "e = (i, d)" by (cases e)
  from e ed obtain t where t: "t \<in> set ts" "node_id t = i" "d \<in> set (dependsOn t)"
    by (auto simp: dep_edges_def)
  with assms have "adjacency ts i = Some (dependsOn t)" using adjacency_distinct by blast
  with t ed show "e \<in> adj_edges (adjacency ts)" by (simp add: adj_edges_def successors_def)
qed

lemma duplicate_errors_distinct:
  "distinct (map node_id ts) \<Longrightarrow> seen \<inter> set (map node_id ts) = {} \<Longrightarrow> duplicate_errors seen ts = []"
  by (induction ts arbitrary: seen) auto

lemma missing_errors_known:
  "\<forall>t\<in>set ts. set (dependsOn t) \<subseteq> ids \<Longrightarrow> missing_errors ids ts = []"
  by (auto simp: missing_errors_def)

lemma detectCycles_top:
  "detectCycles fuel ts = map_option (map_sum (\<lambda>e. e) cycleNodes) (for_each (top_body fuel ts) ts tarjan0)"
  by (simp add: detectCycles_def top_body_def)

lemma top_loop_acyclic:
  assumes acyc: "acyclic (adj_edges adj)" and fin: "finite V"
      and closed: "\<forall>i\<in>V. set (successors adj i) \<subseteq> V"
      and fuel: "card V < n"
      and body: "\<And>t s. body t s = (if indices s (node_id t) = None
                                      then strongConnect n adj (node_id t) s else Some (Inr s))"
  shows "ainv s \<Longrightarrow> stack s = [] \<Longrightarrow> node_id ` set xs \<subseteq> V \<Longrightarrow>
         \<exists>s'. for_each body xs s = Some (Inr s') \<and> ainv s' \<and> stack s' = []"
proof (induction xs arbitrary: s)
  case Nil
  then show ?case by simp
next
  case (Cons t xs)
  have "\<exists>s1. body t s = Some (Inr s1) \<and> ainv s1 \<and> stack s1 = []"
  proof (cases "indices s (node_id t) = None")
    case True
    have tV: "node_id t \<in> V" using Cons.prems(3) by simp
    have "card (V - dom (indices s)) \<le> card V" using fin by (intro card_mono) auto
    with fuel have f: "card (V - dom (indices s)) < n" by simp
    have r: "\<forall>x\<in>set (stack s). (x, node_id t) \<in> (adj_edges adj)\<^sup>+"
      using Cons.prems(2) by simp
    from sc_acyclic [OF acyc fin closed Cons.prems(1) True tV r f] obtain s' where
      "strongConnect n adj (node_id t) s = Some (Inr s')" "apost s (node_id t) s'"
      by (elim exE conjE)
    then have "body t s = Some (Inr s')" "ainv s'" "stack s' = []"
      using True Cons.prems(2) by (simp_all add: body apost_def)
    then show ?thesis by blast
  next
    case False
    then have "body t s = Some (Inr s)" by (auto simp: body)
    then show ?thesis using Cons.prems(1,2) by blast
  qed
  then obtain s1 where b: "body t s = Some (Inr s1)" and i1: "ainv s1" and st1: "stack s1 = []"
    by (elim exE conjE)
  have "node_id ` set xs \<subseteq> V" using Cons.prems(3) by simp
  from Cons.IH [OF i1 st1 this] obtain s' where
    "for_each body xs s1 = Some (Inr s')" "ainv s'" "stack s' = []" by (elim exE conjE)
  then show ?case by (simp add: for_each_Cons b)
qed

lemma ainv_tarjan0: "ainv tarjan0"
  by (simp add: ainv_def tarjan0_def)

lemma detectCycles_well_formed:
  assumes wf: "well_formed ts" and fuel: "length ts < fuel"
  shows "detectCycles fuel ts = Some (Inr [])"
proof -
  let ?V = "set (map node_id ts)"
  let ?adj = "adjacency ts"
  from wf have dist: "distinct (map node_id ts)" and
    res: "\<forall>t\<in>set ts. set (dependsOn t) \<subseteq> ?V" and ac: "acyclic (dep_edges ts)"
    by (simp_all add: well_formed_def)
  have acyc: "acyclic (adj_edges ?adj)" using ac dist by (simp add: adj_edges_adjacency)
  have fin: "finite ?V" by simp
  have closed: "\<forall>i\<in>?V. set (successors ?adj i) \<subseteq> ?V"
  proof
    fix i assume "i \<in> ?V"
    then obtain t where t: "t \<in> set ts" "node_id t = i" by auto
    with dist have "adjacency ts i = Some (dependsOn t)" using adjacency_distinct by blast
    then have "successors ?adj i = dependsOn t" by (simp add: successors_def)
    with res t show "set (successors ?adj i) \<subseteq> ?V" by simp
  qed
  have "card ?V \<le> length ts" using card_length [of "map node_id ts"] by simp
  with fuel have cf: "card ?V < fuel" by simp
  have "\<exists>s'. for_each (top_body fuel ts) ts tarjan0 = Some (Inr s') \<and> ainv s' \<and> stack s' = []"
  proof (rule top_loop_acyclic [OF acyc fin closed cf _ ainv_tarjan0])
    show "\<And>t s. top_body fuel ts t s = (if indices s (node_id t) = None
            then strongConnect fuel ?adj (node_id t) s else Some (Inr s))"
      by (simp add: top_body_def)
    show "stack tarjan0 = []" by (simp add: tarjan0_def)
    show "node_id ` set ts \<subseteq> ?V" by simp
  qed
  then obtain s' where "for_each (top_body fuel ts) ts tarjan0 = Some (Inr s')" "ainv s'"
    by (elim exE conjE)
  then show ?thesis by (simp add: detectCycles_top ainv_def)
qed

text \<open>
  A task list with unique ids, resolvable dependencies and no cycle is accepted without
  errors, by every run with more fuel than there are tasks.
\<close>

lemma validateDag_accepts_well_formed:
  assumes wf: "well_formed ts" and fuel: "length ts < fuel"
  shows "validateDag fuel ts = Some (Inr \<lparr>valid = True, errors = []\<rparr>)"
proof -
  from wf have dist: "distinct (map node_id ts)" and
    res: "\<forall>t\<in>set ts. set (dependsOn t) \<subseteq> set (map node_id ts)"
    by (simp_all add: well_formed_def)
  have d: "duplicate_errors {} ts = []" using dist by (intro duplicate_errors_distinct) simp_all
  have m: "missing_errors (set (map node_id ts)) ts = []" by (rule missing_errors_known) (rule res)
  have c: "detectCycles fuel ts = Some (Inr [])" using wf fuel by (rule detectCycles_well_formed)
  show ?thesis unfolding validateDag_def c d m by (simp add: cycle_errors_def)
qed

subsection \<open>Graphs with cycles: basic facts\<close>

lemma cinv_lower [simp]: "cinv adj (lower i n s) = cinv adj s"
  by (simp add: cinv_def popped_def lower_def)

lemma extends_lower [simp]: "extends s (lower i n s') = extends s s'"
  by (simp add: extends_def lower_def)

lemma extends_refl: "extends s s"
  by (simp add: extends_def)

lemma extends_trans:
  assumes ab: "extends a b" and bc: "extends b c"
  shows "extends a c"
proof -
  from ab have d1: "dom (indices a) \<subseteq> dom (indices b)" and
    o1: "\<forall>x\<in>dom (indices a). indices b x = indices a x" and
    n1: "\<forall>x\<in>dom (indices b) - dom (indices a). index a \<le> num (indices b x)" and
    i1: "index a \<le> index b" by (simp_all add: extends_def)
  from bc have d2: "dom (indices b) \<subseteq> dom (indices c)" and
    o2: "\<forall>x\<in>dom (indices b). indices c x = indices b x" and
    n2: "\<forall>x\<in>dom (indices c) - dom (indices b). index b \<le> num (indices c x)" and
    i2: "index b \<le> index c" by (simp_all add: extends_def)
  have d: "dom (indices a) \<subseteq> dom (indices c)" using d1 d2 by blast
  have o: "\<forall>x\<in>dom (indices a). indices c x = indices a x"
  proof
    fix x assume x: "x \<in> dom (indices a)"
    with d1 have "x \<in> dom (indices b)" by blast
    with o2 have "indices c x = indices b x" by blast
    also from o1 x have "\<dots> = indices a x" by blast
    finally show "indices c x = indices a x" .
  qed
  have n: "\<forall>x\<in>dom (indices c) - dom (indices a). index a \<le> num (indices c x)"
  proof
    fix x assume x: "x \<in> dom (indices c) - dom (indices a)"
    show "index a \<le> num (indices c x)"
    proof (cases "x \<in> dom (indices b)")
      case True
      with x n1 have "index a \<le> num (indices b x)" by blast
      moreover from o2 True have "indices c x = indices b x" by blast
      ultimately show ?thesis by simp
    next
      case False
      with x n2 have "index b \<le> num (indices c x)" by blast
      with i1 show ?thesis by simp
    qed
  qed
  have "index a \<le> index c" using i1 i2 by simp
  with d o n show ?thesis unfolding extends_def by blast
qed

lemma extends_enter:
  assumes "indices s i = None"
  shows "extends s (enter i s)"
  using assms by (auto simp: extends_def)

lemma popped_enter: "indices s i = None \<Longrightarrow> popped (enter i s) = popped s"
  by (auto simp: popped_def)

lemma cinv_enter:
  assumes inv: "cinv adj s" and un: "indices s i = None"
  shows "cinv adj (enter i s)"
proof -
  from inv have a: "onStack s = set (stack s)" and b: "distinct (stack s)" and
    c: "set (stack s) \<subseteq> dom (indices s)" and
    d: "\<forall>x k. indices s x = Some k \<longrightarrow> k < index s" and
    e: "\<forall>y\<in>popped s. set (successors adj y) \<subseteq> popped s" and
    f: "popped s \<inter> nontrivial adj \<subseteq> set (cycleNodes s)"
    by (simp_all add: cinv_def)
  have inot: "i \<notin> set (stack s)" using c un by auto
  have p: "popped (enter i s) = popped s" using un by (rule popped_enter)
  have "onStack (enter i s) = set (stack (enter i s))" using a by simp
  moreover have "distinct (stack (enter i s))" using b inot by simp
  moreover have "set (stack (enter i s)) \<subseteq> dom (indices (enter i s))" using c by auto
  moreover have "\<forall>x k. indices (enter i s) x = Some k \<longrightarrow> k < index (enter i s)"
    using d by (auto simp: less_Suc_eq)
  moreover have "\<forall>y\<in>popped (enter i s). set (successors adj y) \<subseteq> popped (enter i s)"
    unfolding p by (rule e)
  moreover have "popped (enter i s) \<inter> nontrivial adj \<subseteq> set (cycleNodes (enter i s))"
    unfolding p using f by simp
  ultimately show ?thesis unfolding cinv_def by blast
qed

lemma popped_closed:
  assumes e: "\<forall>y\<in>popped s. set (successors adj y) \<subseteq> popped s"
      and r: "(z, x) \<in> (adj_edges adj)\<^sup>*" and z: "z \<in> popped s"
  shows "x \<in> popped s"
  using r z
proof (induction rule: rtrancl_induct)
  case base
  then show ?case .
next
  case (step y x)
  then have "y \<in> popped s" by blast
  moreover from step.hyps(2) have "x \<in> set (successors adj y)" by (simp add: adj_edges_def)
  ultimately show ?case using e by blast
qed

lemma first_step_away:
  assumes "(x, y) \<in> E\<^sup>*" "x \<noteq> y"
  shows "\<exists>z. (x, z) \<in> E \<and> z \<noteq> x \<and> (z, y) \<in> E\<^sup>*"
  using assms
proof (induction rule: rtrancl_induct)
  case base
  then show ?case by simp
next
  case (step y' y)
  show ?case
  proof (cases "x = y'")
    case True
    with step.hyps(2) step.prems have "(x, y) \<in> E \<and> y \<noteq> x \<and> (y, y) \<in> E\<^sup>*" by auto
    then show ?thesis by blast
  next
    case False
    with step.IH obtain z where "(x, z) \<in> E" "z \<noteq> x" "(z, y') \<in> E\<^sup>*" by blast
    moreover from this(3) step.hyps(2) have "(z, y) \<in> E\<^sup>*" by (rule rtrancl_into_rtrancl)
    ultimately show ?thesis by blast
  qed
qed

subsection \<open>The loop over the successors\<close>

lemma cloopI:
  "cinv adj sk \<Longrightarrow> extends s0 sk \<Longrightarrow>
   (\<forall>x\<in>dom (indices s0). x \<noteq> i \<longrightarrow> lowlinks sk x = lowlinks s0 x) \<Longrightarrow>
   lowlinks sk i \<noteq> None \<Longrightarrow>
   num (lowlinks sk i) \<le> k \<Longrightarrow>
   qlow s0 rest k (num (lowlinks sk i)) \<Longrightarrow>
   D \<subseteq> dom (indices sk) \<Longrightarrow>
   (\<forall>d\<in>D. d \<in> set rest \<longrightarrow> num (lowlinks sk i) \<le> num (indices s0 d)) \<Longrightarrow>
   (\<exists>seg. stack sk = seg @ i # rest \<and> seg_ok adj s0 rest (num (lowlinks sk i)) sk seg) \<Longrightarrow>
   cloop adj i rest k s0 D sk"
  unfolding cloop_def by (intro conjI)

lemma cloopD_seg:
  "cloop adj i rest k s0 D sk \<Longrightarrow>
   \<exists>seg. stack sk = seg @ i # rest \<and> seg_ok adj s0 rest (num (lowlinks sk i)) sk seg"
  by (simp add: cloop_def)

lemma cpostI:
  "cinv adj s' \<Longrightarrow> extends s s' \<Longrightarrow> index s < index s' \<Longrightarrow> i \<in> dom (indices s') \<Longrightarrow>
   (\<forall>x\<in>dom (indices s). lowlinks s' x = lowlinks s x) \<Longrightarrow>
   lowlinks s' i \<noteq> None \<Longrightarrow>
   qlow s (stack s) (index s) (num (lowlinks s' i)) \<Longrightarrow>
   (num (lowlinks s' i) = index s \<longrightarrow> stack s' = stack s) \<Longrightarrow>
   (\<exists>new. stack s' = new @ stack s \<and> seg_ok adj s (stack s) (num (lowlinks s' i)) s' new) \<Longrightarrow>
   cpost adj s i s'"
  unfolding cpost_def by (intro conjI)

lemma cpostD_seg:
  "cpost adj s i s' \<Longrightarrow>
   \<exists>new. stack s' = new @ stack s \<and> seg_ok adj s (stack s) (num (lowlinks s' i)) s' new"
  by (simp add: cpost_def)

lemma seg_ok_mono:
  assumes "seg_ok adj s0 rest l sk seg" "l1 \<le> l" "dom (indices sk) \<subseteq> dom (indices s1)"
  shows "seg_ok adj s0 rest l1 s1 seg"
proof -
  from assms(1) have a: "set seg \<inter> dom (indices s0) = {}" and
    b: "\<forall>x\<in>set seg. set (successors adj x) \<subseteq> dom (indices sk)" and
    c: "\<forall>x\<in>set seg. \<forall>w\<in>set (successors adj x). w \<in> set rest \<longrightarrow> l \<le> num (indices s0 w)"
    by (simp_all add: seg_ok_def)
  have b': "\<forall>x\<in>set seg. set (successors adj x) \<subseteq> dom (indices s1)"
    using b assms(3) by blast
  have c': "\<forall>x\<in>set seg. \<forall>w\<in>set (successors adj x). w \<in> set rest \<longrightarrow> l1 \<le> num (indices s0 w)"
  proof (intro ballI impI)
    fix x w assume "x \<in> set seg" "w \<in> set (successors adj x)" "w \<in> set rest"
    with c have "l \<le> num (indices s0 w)" by blast
    with assms(2) show "l1 \<le> num (indices s0 w)" by simp
  qed
  show ?thesis unfolding seg_ok_def using a b' c' by (intro conjI)
qed

lemma seg_ok_append:
  assumes old: "seg_ok adj s0 rest l sk seg" and new: "seg_ok adj sk below ld s' new"
      and d0k: "dom (indices s0) \<subseteq> dom (indices sk)"
      and o0k: "\<forall>x\<in>dom (indices s0). indices sk x = indices s0 x"
      and dk': "dom (indices sk) \<subseteq> dom (indices s')"
      and rb: "set rest \<subseteq> set below" and r0: "set rest \<subseteq> dom (indices s0)"
      and l1: "l1 \<le> l" "l1 \<le> ld"
  shows "seg_ok adj s0 rest l1 s' (new @ seg)"
proof -
  from old have a: "set seg \<inter> dom (indices s0) = {}" and
    b: "\<forall>x\<in>set seg. set (successors adj x) \<subseteq> dom (indices sk)" and
    c: "\<forall>x\<in>set seg. \<forall>w\<in>set (successors adj x). w \<in> set rest \<longrightarrow> l \<le> num (indices s0 w)"
    by (simp_all add: seg_ok_def)
  from new have a': "set new \<inter> dom (indices sk) = {}" and
    b': "\<forall>x\<in>set new. set (successors adj x) \<subseteq> dom (indices s')" and
    c': "\<forall>x\<in>set new. \<forall>w\<in>set (successors adj x). w \<in> set below \<longrightarrow> ld \<le> num (indices sk w)"
    by (simp_all add: seg_ok_def)
  have "set new \<inter> dom (indices s0) = {}" using a' d0k by blast
  with a have A: "set (new @ seg) \<inter> dom (indices s0) = {}" by (simp add: Int_Un_distrib2)
  have B: "\<forall>x\<in>set (new @ seg). set (successors adj x) \<subseteq> dom (indices s')"
  proof
    fix x assume "x \<in> set (new @ seg)"
    then have "x \<in> set new \<or> x \<in> set seg" by simp
    then show "set (successors adj x) \<subseteq> dom (indices s')"
    proof
      assume "x \<in> set new" with b' show ?thesis by blast
    next
      assume "x \<in> set seg"
      with b have "set (successors adj x) \<subseteq> dom (indices sk)" by blast
      with dk' show ?thesis by blast
    qed
  qed
  have C: "\<forall>x\<in>set (new @ seg). \<forall>w\<in>set (successors adj x). w \<in> set rest \<longrightarrow> l1 \<le> num (indices s0 w)"
  proof (intro ballI impI)
    fix x w assume x: "x \<in> set (new @ seg)" and w: "w \<in> set (successors adj x)" "w \<in> set rest"
    from x have "x \<in> set new \<or> x \<in> set seg" by simp
    then show "l1 \<le> num (indices s0 w)"
    proof
      assume xn: "x \<in> set new"
      from w(2) rb have "w \<in> set below" by blast
      with c' xn w(1) have "ld \<le> num (indices sk w)" by blast
      moreover from w(2) r0 o0k have "indices sk w = indices s0 w" by blast
      ultimately show ?thesis using l1(2) by simp
    next
      assume "x \<in> set seg"
      with c w have "l \<le> num (indices s0 w)" by blast
      with l1(1) show ?thesis by simp
    qed
  qed
  show ?thesis unfolding seg_ok_def using A B C by (intro conjI)
qed

lemma qlow_min:
  assumes ent: "centry i rest k s0" and ext: "extends s0 sk"
      and sg1: "set seg \<inter> dom (indices s0) = {}"
      and lle: "l \<le> k" and q: "qlow s0 rest k l"
      and y: "y \<in> set (seg @ i # rest)" and iy: "indices sk y = Some ld"
  shows "qlow s0 rest k (min l ld)"
proof (cases "l \<le> ld")
  case True
  then have "min l ld = l" by simp
  with q show ?thesis by simp
next
  case False
  then have lt: "ld < l" and m: "min l ld = ld" by simp_all
  from ent have ik: "indices s0 i = Some k" and ix0: "index s0 = Suc k" and
    rk: "\<forall>y\<in>set rest. \<exists>ky. indices s0 y = Some ky \<and> ky < k" by (simp_all add: centry_def)
  from ext have o0k: "\<forall>x\<in>dom (indices s0). indices sk x = indices s0 x" and
    n0k: "\<forall>x\<in>dom (indices sk) - dom (indices s0). index s0 \<le> num (indices sk x)"
    by (simp_all add: extends_def)
  from y have "y \<in> set seg \<or> y = i \<or> y \<in> set rest" by auto
  then show ?thesis
  proof (elim disjE)
    assume "y \<in> set seg"
    with sg1 have "y \<notin> dom (indices s0)" by blast
    moreover from iy have "y \<in> dom (indices sk)" by blast
    ultimately have "index s0 \<le> num (indices sk y)" using n0k by blast
    with iy ix0 have "Suc k \<le> ld" by simp
    with lt lle have False by simp
    then show ?thesis ..
  next
    assume "y = i"
    moreover from ik have "i \<in> dom (indices s0)" by blast
    ultimately have "indices sk y = Some k" using o0k ik by simp
    with iy have "ld = k" by simp
    with lt lle have False by simp
    then show ?thesis ..
  next
    assume yr: "y \<in> set rest"
    with rk have "y \<in> dom (indices s0)" by blast
    with o0k iy have "indices s0 y = Some ld" by simp
    with yr show ?thesis unfolding m qlow_def by blast
  qed
qed

lemma cloop_step:
  assumes IH: "\<And>s i. cinv adj s \<Longrightarrow> indices s i = None \<Longrightarrow> i \<in> V \<Longrightarrow>
                 card (V - dom (indices s)) < n \<Longrightarrow>
                 \<exists>s'. strongConnect n adj i s = Some (Inr s') \<and> cpost adj s i s'"
      and ent: "centry i rest k s0"
      and lp: "cloop adj i rest k s0 D sk"
      and dV: "d \<in> V"
      and fuel: "card (V - dom (indices sk)) < n"
  shows "\<exists>s1. sc_body n adj i d sk = Some (Inr s1) \<and> cloop adj i rest k s0 (insert d D) s1 \<and>
              dom (indices sk) \<subseteq> dom (indices s1)"
proof -
  from ent have ik: "indices s0 i = Some k" and ix0: "index s0 = Suc k" and
    rk: "\<forall>y\<in>set rest. \<exists>ky. indices s0 y = Some ky \<and> ky < k" by (simp_all add: centry_def)
  from lp have invk: "cinv adj sk" and extk: "extends s0 sk" and
    oldk: "\<forall>x\<in>dom (indices s0). x \<noteq> i \<longrightarrow> lowlinks sk x = lowlinks s0 x" and
    lsome: "lowlinks sk i \<noteq> None" and lle: "num (lowlinks sk i) \<le> k" and
    qk: "qlow s0 rest k (num (lowlinks sk i))" and Dk: "D \<subseteq> dom (indices sk)" and
    Pk: "\<forall>d\<in>D. d \<in> set rest \<longrightarrow> num (lowlinks sk i) \<le> num (indices s0 d)"
    unfolding cloop_def by blast+
  from cloopD_seg [OF lp] obtain seg where stk: "stack sk = seg @ i # rest" and
    sgk: "seg_ok adj s0 rest (num (lowlinks sk i)) sk seg" by (elim exE conjE)
  from sgk have sg1: "set seg \<inter> dom (indices s0) = {}" by (simp add: seg_ok_def)
  from extk have d0k: "dom (indices s0) \<subseteq> dom (indices sk)" and
    o0k: "\<forall>x\<in>dom (indices s0). indices sk x = indices s0 x" and
    i0k: "index s0 \<le> index sk" by (simp_all add: extends_def)
  have i0: "i \<in> dom (indices s0)" using ik by blast
  have r0: "set rest \<subseteq> dom (indices s0)" using rk by blast
  have isk: "i \<in> dom (indices sk)" using i0 d0k by blast
  from lsome obtain l where l: "lowlinks sk i = Some l" by blast
  have nl: "num (lowlinks sk i) = l" using l by simp
  have lle': "l \<le> k" using lle nl by simp
  have qk': "qlow s0 rest k l" using qk nl by simp
  have sgk': "seg_ok adj s0 rest l sk seg" using sgk nl by simp
  have Pk': "\<forall>d\<in>D. d \<in> set rest \<longrightarrow> l \<le> num (indices s0 d)" using Pk nl by simp
  have onst: "onStack sk = set (stack sk)" using invk by (simp add: cinv_def)
  have rb: "set rest \<subseteq> set (stack sk)" using stk by auto
  show ?thesis
  proof (cases "indices sk d = None")
    case True
    from IH [OF invk True dV fuel] obtain s' where
      sc: "strongConnect n adj d sk = Some (Inr s')" and post: "cpost adj sk d s'"
      by (elim exE conjE)
    from post have inv': "cinv adj s'" and ext': "extends sk s'" and
      idx': "index sk < index s'" and dd: "d \<in> dom (indices s')" and
      old': "\<forall>x\<in>dom (indices sk). lowlinks s' x = lowlinks sk x" and
      ql': "qlow sk (stack sk) (index sk) (num (lowlinks s' d))"
      unfolding cpost_def by blast+
    from cpostD_seg [OF post] obtain new where st': "stack s' = new @ stack sk" and
      sg': "seg_ok adj sk (stack sk) (num (lowlinks s' d)) s' new" by (elim exE conjE)
    from ext' have dk': "dom (indices sk) \<subseteq> dom (indices s')" by (simp add: extends_def)
    let ?ld = "num (lowlinks s' d)"
    let ?s1 = "lower i ?ld s'"
    have body: "sc_body n adj i d sk = Some (Inr ?s1)"
      using True sc by (simp add: sc_body_def)
    have li': "lowlinks s' i = Some l" using old' isk l by simp
    have l1: "lowlinks ?s1 i = Some (min l ?ld)" using li' by simp
    have n1: "num (lowlinks ?s1 i) = min l ?ld" using l1 by simp
    have c1: "cinv adj ?s1" using inv' by simp
    have c2: "extends s0 ?s1" using extends_trans [OF extk ext'] by simp
    have c3: "\<forall>x\<in>dom (indices s0). x \<noteq> i \<longrightarrow> lowlinks ?s1 x = lowlinks s0 x"
    proof (intro ballI impI)
      fix x assume x: "x \<in> dom (indices s0)" "x \<noteq> i"
      with d0k have "x \<in> dom (indices sk)" by blast
      with old' have "lowlinks s' x = lowlinks sk x" by blast
      moreover from oldk x have "lowlinks sk x = lowlinks s0 x" by blast
      ultimately show "lowlinks ?s1 x = lowlinks s0 x" using x(2) by simp
    qed
    have c4: "lowlinks ?s1 i \<noteq> None" using l1 by simp
    have c5: "num (lowlinks ?s1 i) \<le> k" unfolding n1 using lle' by simp
    have "?ld = index sk \<or> (\<exists>y\<in>set (stack sk). indices sk y = Some ?ld)"
      using ql' by (simp add: qlow_def)
    then have "qlow s0 rest k (min l ?ld)"
    proof
      assume "?ld = index sk"
      with i0k ix0 lle' have "min l ?ld = l" by simp
      with qk' show ?thesis by simp
    next
      assume "\<exists>y\<in>set (stack sk). indices sk y = Some ?ld"
      then obtain y where y: "y \<in> set (stack sk)" "indices sk y = Some ?ld" by blast
      from y(1) stk have "y \<in> set (seg @ i # rest)" by simp
      then show ?thesis by (rule qlow_min [OF ent extk sg1 lle' qk' _ y(2)])
    qed
    then have c6: "qlow s0 rest k (num (lowlinks ?s1 i))" unfolding n1 .
    have c7: "insert d D \<subseteq> dom (indices ?s1)" using dd Dk dk' by auto
    have c8: "\<forall>d'\<in>insert d D. d' \<in> set rest \<longrightarrow> num (lowlinks ?s1 i) \<le> num (indices s0 d')"
    proof (intro ballI impI)
      fix d' assume d': "d' \<in> insert d D" "d' \<in> set rest"
      have "d' \<noteq> d"
      proof
        assume "d' = d"
        with d'(2) r0 d0k have "d \<in> dom (indices sk)" by blast
        with True show False by auto
      qed
      with d'(1) have "d' \<in> D" by simp
      with Pk' d'(2) have "l \<le> num (indices s0 d')" by blast
      then show "num (lowlinks ?s1 i) \<le> num (indices s0 d')" unfolding n1 by simp
    qed
    have st1: "stack ?s1 = (new @ seg) @ i # rest" using st' stk by simp
    have "seg_ok adj s0 rest (min l ?ld) s' (new @ seg)"
      by (rule seg_ok_append [OF sgk' sg' d0k o0k dk' rb r0]) simp_all
    then have sg1': "seg_ok adj s0 rest (num (lowlinks ?s1 i)) ?s1 (new @ seg)"
      unfolding n1 by (simp add: seg_ok_def)
    have c9: "\<exists>seg'. stack ?s1 = seg' @ i # rest \<and>
                     seg_ok adj s0 rest (num (lowlinks ?s1 i)) ?s1 seg'"
      using st1 sg1' by blast
    have "cloop adj i rest k s0 (insert d D) ?s1"
      by (rule cloopI [OF c1 c2 c3 c4 c5 c6 c7 c8 c9])
    moreover have "dom (indices sk) \<subseteq> dom (indices ?s1)" using dk' by simp
    ultimately show ?thesis using body by blast
  next
    case False
    then obtain kd where kd: "indices sk d = Some kd" by blast
    show ?thesis
    proof (cases "d \<in> onStack sk")
      case True
      let ?s1 = "lower i (num (indices sk d)) sk"
      have body: "sc_body n adj i d sk = Some (Inr ?s1)"
        using False True by (auto simp: sc_body_def)
      have l1: "lowlinks ?s1 i = Some (min l kd)" using l kd by simp
      have n1: "num (lowlinks ?s1 i) = min l kd" using l1 by simp
      have c1: "cinv adj ?s1" using invk by simp
      have c2: "extends s0 ?s1" using extk by simp
      have c3: "\<forall>x\<in>dom (indices s0). x \<noteq> i \<longrightarrow> lowlinks ?s1 x = lowlinks s0 x"
        using oldk by simp
      have c4: "lowlinks ?s1 i \<noteq> None" using l1 by simp
      have c5: "num (lowlinks ?s1 i) \<le> k" unfolding n1 using lle' by simp
      from True onst stk have "d \<in> set (seg @ i # rest)" by simp
      then have "qlow s0 rest k (min l kd)" by (rule qlow_min [OF ent extk sg1 lle' qk' _ kd])
      then have c6: "qlow s0 rest k (num (lowlinks ?s1 i))" unfolding n1 .
      have c7: "insert d D \<subseteq> dom (indices ?s1)" using kd Dk by auto
      have c8: "\<forall>d'\<in>insert d D. d' \<in> set rest \<longrightarrow> num (lowlinks ?s1 i) \<le> num (indices s0 d')"
      proof (intro ballI impI)
        fix d' assume d': "d' \<in> insert d D" "d' \<in> set rest"
        show "num (lowlinks ?s1 i) \<le> num (indices s0 d')"
        proof (cases "d' = d")
          case True
          with d'(2) r0 o0k have "indices sk d = indices s0 d" by blast
          with kd True show ?thesis unfolding n1 by simp
        next
          case False
          with d'(1) have "d' \<in> D" by simp
          with Pk' d'(2) have "l \<le> num (indices s0 d')" by blast
          then show ?thesis unfolding n1 by simp
        qed
      qed
      have "seg_ok adj s0 rest (min l kd) ?s1 seg"
        by (rule seg_ok_mono [OF sgk']) simp_all
      then have "seg_ok adj s0 rest (num (lowlinks ?s1 i)) ?s1 seg" unfolding n1 .
      moreover have "stack ?s1 = seg @ i # rest" using stk by simp
      ultimately have c9: "\<exists>seg'. stack ?s1 = seg' @ i # rest \<and>
                     seg_ok adj s0 rest (num (lowlinks ?s1 i)) ?s1 seg'" by blast
      have "cloop adj i rest k s0 (insert d D) ?s1"
        by (rule cloopI [OF c1 c2 c3 c4 c5 c6 c7 c8 c9])
      moreover have "dom (indices sk) \<subseteq> dom (indices ?s1)" by simp
      ultimately show ?thesis using body by blast
    next
      case nos: False
      have body: "sc_body n adj i d sk = Some (Inr sk)"
        using False nos by (auto simp: sc_body_def)
      have c7: "insert d D \<subseteq> dom (indices sk)" using kd Dk by auto
      have c8: "\<forall>d'\<in>insert d D. d' \<in> set rest \<longrightarrow> num (lowlinks sk i) \<le> num (indices s0 d')"
      proof (intro ballI impI)
        fix d' assume d': "d' \<in> insert d D" "d' \<in> set rest"
        from d'(2) rb onst have "d' \<in> onStack sk" by blast
        with nos have "d' \<noteq> d" by blast
        with d'(1) have "d' \<in> D" by simp
        with Pk d'(2) show "num (lowlinks sk i) \<le> num (indices s0 d')" by blast
      qed
      have c9: "\<exists>seg'. stack sk = seg' @ i # rest \<and>
                     seg_ok adj s0 rest (num (lowlinks sk i)) sk seg'"
        using stk sgk by blast
      have "cloop adj i rest k s0 (insert d D) sk"
        by (rule cloopI [OF invk extk oldk lsome lle qk c7 c8 c9])
      then show ?thesis using body by blast
    qed
  qed
qed

lemma cloop_loop:
  assumes fin: "finite V"
      and IH: "\<And>s i. cinv adj s \<Longrightarrow> indices s i = None \<Longrightarrow> i \<in> V \<Longrightarrow>
                 card (V - dom (indices s)) < n \<Longrightarrow>
                 \<exists>s'. strongConnect n adj i s = Some (Inr s') \<and> cpost adj s i s'"
      and ent: "centry i rest k s0"
  shows "cloop adj i rest k s0 D sk \<Longrightarrow> set ds \<subseteq> V \<Longrightarrow> card (V - dom (indices sk)) < n \<Longrightarrow>
         \<exists>sk'. for_each (sc_body n adj i) ds sk = Some (Inr sk') \<and>
               cloop adj i rest k s0 (D \<union> set ds) sk'"
proof (induction ds arbitrary: sk D)
  case Nil
  then show ?case by simp
next
  case (Cons d ds)
  from Cons.prems(2) have dV: "d \<in> V" and dsV: "set ds \<subseteq> V" by simp_all
  have "\<exists>s1. sc_body n adj i d sk = Some (Inr s1) \<and> cloop adj i rest k s0 (insert d D) s1 \<and>
              dom (indices sk) \<subseteq> dom (indices s1)"
  proof (rule cloop_step [OF _ ent Cons.prems(1) dV Cons.prems(3)])
    fix s i'
    assume "cinv adj s" "indices s i' = None" "i' \<in> V" "card (V - dom (indices s)) < n"
    then show "\<exists>s'. strongConnect n adj i' s = Some (Inr s') \<and> cpost adj s i' s'" by (rule IH)
  qed
  then obtain s1 where body: "sc_body n adj i d sk = Some (Inr s1)" and
    l1: "cloop adj i rest k s0 (insert d D) s1" and
    dom1: "dom (indices sk) \<subseteq> dom (indices s1)" by (elim exE conjE)
  have "card (V - dom (indices s1)) \<le> card (V - dom (indices sk))"
    using fin dom1 by (rule card_Diff_mono)
  with Cons.prems(3) have fuel1: "card (V - dom (indices s1)) < n" by simp
  from Cons.IH [OF l1 dsV fuel1] obtain sk' where
    f: "for_each (sc_body n adj i) ds s1 = Some (Inr sk')" and
    l2: "cloop adj i rest k s0 (insert d D \<union> set ds) sk'" by (elim exE conjE)
  have run: "for_each (sc_body n adj i) (d # ds) sk = Some (Inr sk')"
    by (simp add: for_each_Cons body f)
  have "insert d D \<union> set ds = D \<union> set (d # ds)" by simp
  with l2 have "cloop adj i rest k s0 (D \<union> set (d # ds)) sk'" by simp
  with run show ?case by blast
qed

subsection \<open>strongConnect on any graph\<close>

lemma cinvI:
  "onStack s = set (stack s) \<Longrightarrow> distinct (stack s) \<Longrightarrow> set (stack s) \<subseteq> dom (indices s) \<Longrightarrow>
   (\<forall>x k. indices s x = Some k \<longrightarrow> k < index s) \<Longrightarrow>
   (\<forall>y\<in>popped s. set (successors adj y) \<subseteq> popped s) \<Longrightarrow>
   popped s \<inter> nontrivial adj \<subseteq> set (cycleNodes s) \<Longrightarrow> cinv adj s"
  unfolding cinv_def by (intro conjI)

lemma sc_complete:
  assumes fin: "finite V" and closed: "\<forall>i\<in>V. set (successors adj i) \<subseteq> V"
  shows "cinv adj s \<Longrightarrow> indices s i = None \<Longrightarrow> i \<in> V \<Longrightarrow> card (V - dom (indices s)) < n \<Longrightarrow>
         \<exists>s'. strongConnect n adj i s = Some (Inr s') \<and> cpost adj s i s'"
proof (induction n arbitrary: s i)
  case 0
  then show ?case by simp
next
  case (Suc n)
  let ?s0 = "enter i s"
  let ?k = "index s"
  let ?rest = "stack s"
  note un = Suc.prems(2)
  from Suc.prems(1) have c: "set (stack s) \<subseteq> dom (indices s)" and
    dlt: "\<forall>x k. indices s x = Some k \<longrightarrow> k < index s" by (simp_all add: cinv_def)
  have inot: "i \<notin> set (stack s)" using c un by auto
  have inv0: "cinv adj ?s0" using Suc.prems(1) un by (rule cinv_enter)
  have ext0: "extends s ?s0" using un by (rule extends_enter)
  have rk: "\<forall>y\<in>set ?rest. \<exists>ky. indices ?s0 y = Some ky \<and> ky < ?k"
  proof
    fix y assume y: "y \<in> set ?rest"
    with c obtain ky where ky: "indices s y = Some ky" by blast
    with dlt have "ky < ?k" by blast
    moreover from y inot have "y \<noteq> i" by blast
    ultimately show "\<exists>ky. indices ?s0 y = Some ky \<and> ky < ?k" using ky by simp
  qed
  have ent: "centry i ?rest ?k ?s0" unfolding centry_def using rk by simp
  have "seg_ok adj ?s0 ?rest (num (lowlinks ?s0 i)) ?s0 []" by (simp add: seg_ok_def)
  moreover have "stack ?s0 = [] @ i # ?rest" by simp
  ultimately have sg0: "\<exists>seg. stack ?s0 = seg @ i # ?rest \<and>
                          seg_ok adj ?s0 ?rest (num (lowlinks ?s0 i)) ?s0 seg" by blast
  have lp0: "cloop adj i ?rest ?k ?s0 {} ?s0"
  proof (rule cloopI [OF inv0 extends_refl _ _ _ _ _ _ sg0])
    show "qlow ?s0 ?rest ?k (num (lowlinks ?s0 i))" by (simp add: qlow_def)
  qed simp_all
  have "i \<in> V - dom (indices s)" using un Suc.prems(3) by auto
  then have "V - dom (indices s) = insert i (V - dom (indices ?s0))" by auto
  moreover have "i \<notin> V - dom (indices ?s0)" by simp
  moreover have "finite (V - dom (indices ?s0))" using fin by simp
  ultimately have "card (V - dom (indices s)) = Suc (card (V - dom (indices ?s0)))"
    by (metis card_insert_disjoint)
  with Suc.prems(4) have fuel0: "card (V - dom (indices ?s0)) < n" by simp
  have succV: "set (successors adj i) \<subseteq> V" using closed Suc.prems(3) by blast
  have "\<exists>sk'. for_each (sc_body n adj i) (successors adj i) ?s0 = Some (Inr sk') \<and>
             cloop adj i ?rest ?k ?s0 ({} \<union> set (successors adj i)) sk'"
  proof (rule cloop_loop [OF fin _ ent lp0 succV fuel0])
    fix s' i'
    assume "cinv adj s'" "indices s' i' = None" "i' \<in> V" "card (V - dom (indices s')) < n"
    then show "\<exists>s''. strongConnect n adj i' s' = Some (Inr s'') \<and> cpost adj s' i' s''"
      by (rule Suc.IH)
  qed
  then obtain sk where f: "for_each (sc_body n adj i) (successors adj i) ?s0 = Some (Inr sk)" and
    lp': "cloop adj i ?rest ?k ?s0 ({} \<union> set (successors adj i)) sk" by (elim exE conjE)
  from lp' have lp: "cloop adj i ?rest ?k ?s0 (set (successors adj i)) sk" by simp
  from lp have invk: "cinv adj sk" and extk: "extends ?s0 sk" and
    oldk: "\<forall>x\<in>dom (indices ?s0). x \<noteq> i \<longrightarrow> lowlinks sk x = lowlinks ?s0 x" and
    lsome: "lowlinks sk i \<noteq> None" and lle: "num (lowlinks sk i) \<le> ?k" and
    qk: "qlow ?s0 ?rest ?k (num (lowlinks sk i))" and
    Dk: "set (successors adj i) \<subseteq> dom (indices sk)" and
    Pk: "\<forall>d\<in>set (successors adj i). d \<in> set ?rest \<longrightarrow> num (lowlinks sk i) \<le> num (indices ?s0 d)"
    unfolding cloop_def by blast+
  from cloopD_seg [OF lp] obtain seg where stk: "stack sk = seg @ i # ?rest" and
    sgk: "seg_ok adj ?s0 ?rest (num (lowlinks sk i)) sk seg" by (elim exE conjE)
  from sgk have sg1: "set seg \<inter> dom (indices ?s0) = {}" and
    sg2: "\<forall>x\<in>set seg. set (successors adj x) \<subseteq> dom (indices sk)" and
    sg3: "\<forall>x\<in>set seg. \<forall>w\<in>set (successors adj x). w \<in> set ?rest \<longrightarrow>
            num (lowlinks sk i) \<le> num (indices ?s0 w)"
    by (simp_all add: seg_ok_def)
  from extk have d0k: "dom (indices ?s0) \<subseteq> dom (indices sk)" and
    o0k: "\<forall>x\<in>dom (indices ?s0). indices sk x = indices ?s0 x" and
    i0k: "index ?s0 \<le> index sk" by (simp_all add: extends_def)
  have ink: "indices sk i = Some ?k" using o0k by simp
  from lsome obtain l where l: "lowlinks sk i = Some l" by blast
  have nl: "num (lowlinks sk i) = l" using l by simp
  from invk have ak: "onStack sk = set (stack sk)" and bk: "distinct (stack sk)" and
    ck: "set (stack sk) \<subseteq> dom (indices sk)" and
    dk: "\<forall>x k. indices sk x = Some k \<longrightarrow> k < index sk" and
    ek: "\<forall>y\<in>popped sk. set (successors adj y) \<subseteq> popped sk" and
    fk: "popped sk \<inter> nontrivial adj \<subseteq> set (cycleNodes sk)"
    by (simp_all add: cinv_def)
  have exts: "extends s sk" using ext0 extk by (rule extends_trans)
  have oldlow: "\<forall>x\<in>dom (indices s). lowlinks sk x = lowlinks s x"
  proof
    fix x assume x: "x \<in> dom (indices s)"
    with un have xi: "x \<noteq> i" by auto
    from x have "x \<in> dom (indices ?s0)" by simp
    with oldk xi have "lowlinks sk x = lowlinks ?s0 x" by blast
    with xi show "lowlinks sk x = lowlinks s x" by simp
  qed
  have idx: "index s < index sk" using i0k by simp
  have idom: "i \<in> dom (indices sk)" using ink by blast
  have allvis: "\<forall>x\<in>set (seg @ [i]). set (successors adj x) \<subseteq> dom (indices sk)"
    using sg2 Dk by simp
  have lowP: "\<forall>x\<in>set (seg @ [i]). \<forall>w\<in>set (successors adj x). w \<in> set ?rest \<longrightarrow>
                l \<le> num (indices s w)"
  proof (intro ballI impI)
    fix x w assume x: "x \<in> set (seg @ [i])" and w: "w \<in> set (successors adj x)" "w \<in> set ?rest"
    from x have "x \<in> set seg \<or> x = i" by auto
    then have "num (lowlinks sk i) \<le> num (indices ?s0 w)"
    proof
      assume "x \<in> set seg" with sg3 w show ?thesis by blast
    next
      assume "x = i" with Pk w show ?thesis by blast
    qed
    moreover from w(2) inot have "w \<noteq> i" by blast
    ultimately show "l \<le> num (indices s w)" using nl by simp
  qed
  show ?case
  proof (cases "l = ?k")
    case True
    have inseg: "i \<notin> set seg" using sg1 by auto
    have root: "lowlinks sk i = indices sk i" using l ink True by simp
    let ?s' = "sk\<lparr>stack := ?rest, onStack := onStack sk - set (seg @ [i]),
                  cycleNodes := (if seg \<noteq> [] then cycleNodes sk @ seg @ [i]
                                 else cycleNodes sk)\<rparr>"
    have fin_eq: "finish i sk = Some ?s'" using root stk inseg by (rule finish_root)
    have run: "strongConnect (Suc n) adj i s = Some (Inr ?s')"
      by (simp add: strongConnect_Suc f fin_eq)
    have noback: "\<forall>x\<in>set (seg @ [i]). \<forall>w\<in>set (successors adj x). w \<notin> set ?rest"
    proof (intro ballI)
      fix x w assume x: "x \<in> set (seg @ [i])" and w: "w \<in> set (successors adj x)"
      show "w \<notin> set ?rest"
      proof
        assume wr: "w \<in> set ?rest"
        with lowP x w have "l \<le> num (indices s w)" by blast
        moreover from wr c obtain kw where kw: "indices s w = Some kw" by blast
        moreover from kw dlt have "kw < ?k" by blast
        ultimately show False using True by simp
      qed
    qed
    have pop_eq: "popped ?s' = popped sk \<union> set (seg @ [i])"
    proof -
      have "set (seg @ [i]) \<subseteq> dom (indices sk)" using ck stk by auto
      moreover have "set (seg @ [i]) \<inter> set ?rest = {}" using bk stk by auto
      moreover have "set (stack sk) = set (seg @ [i]) \<union> set ?rest" using stk by auto
      ultimately show ?thesis unfolding popped_def by auto
    qed
    have A: "onStack ?s' = set (stack ?s')" using ak stk bk by auto
    have B: "distinct (stack ?s')" using bk stk by simp
    have C: "set (stack ?s') \<subseteq> dom (indices ?s')" using ck stk by simp
    have Dd: "\<forall>x k. indices ?s' x = Some k \<longrightarrow> k < index ?s'" using dk by simp
    have pmem: "\<And>w. w \<in> dom (indices sk) \<Longrightarrow> w \<notin> set ?rest \<Longrightarrow> w \<in> popped ?s'"
      by (simp add: popped_def)
    have E: "\<forall>y\<in>popped ?s'. set (successors adj y) \<subseteq> popped ?s'"
    proof
      fix y assume "y \<in> popped ?s'"
      then have "y \<in> popped sk \<or> y \<in> set (seg @ [i])" unfolding pop_eq by blast
      then show "set (successors adj y) \<subseteq> popped ?s'"
      proof
        assume "y \<in> popped sk"
        with ek have "set (successors adj y) \<subseteq> popped sk" by blast
        then show ?thesis unfolding pop_eq by blast
      next
        assume y: "y \<in> set (seg @ [i])"
        show ?thesis
        proof
          fix w assume w: "w \<in> set (successors adj y)"
          from allvis y w have "w \<in> dom (indices sk)" by blast
          moreover from noback y w have "w \<notin> set ?rest" by blast
          ultimately show "w \<in> popped ?s'" by (rule pmem)
        qed
      qed
    qed
    have F: "popped ?s' \<inter> nontrivial adj \<subseteq> set (cycleNodes ?s')"
    proof
      fix y assume "y \<in> popped ?s' \<inter> nontrivial adj"
      then have y: "y \<in> popped sk \<or> y \<in> set (seg @ [i])" and nt: "y \<in> nontrivial adj"
        unfolding pop_eq by blast+
      from y show "y \<in> set (cycleNodes ?s')"
      proof
        assume "y \<in> popped sk"
        with fk nt have "y \<in> set (cycleNodes sk)" by blast
        then show ?thesis by simp
      next
        assume ys: "y \<in> set (seg @ [i])"
        show ?thesis
        proof (cases "seg = []")
          case False
          with ys show ?thesis by auto
        next
          case True
          with ys have yi: "y = i" by simp
          from nt yi obtain z where z: "z \<in> set (successors adj i)" "z \<noteq> i"
            "(z, i) \<in> (adj_edges adj)\<^sup>*" unfolding nontrivial_def by blast
          have "i \<in> set (seg @ [i])" by simp
          with allvis z(1) have zd: "z \<in> dom (indices sk)" by blast
          from noback \<open>i \<in> set (seg @ [i])\<close> z(1) have "z \<notin> set ?rest" by blast
          with z(2) stk True have "z \<notin> set (stack sk)" by simp
          with zd have "z \<in> popped sk" by (simp add: popped_def)
          with ek z(3) have "i \<in> popped sk" by (rule popped_closed)
          then have "i \<notin> set (stack sk)" by (simp add: popped_def)
          with stk have False by simp
          then show ?thesis ..
        qed
      qed
    qed
    have p1: "cinv adj ?s'" using A B C Dd E F by (rule cinvI)
    have p2: "extends s ?s'" using exts by (simp add: extends_def)
    have p3: "index s < index ?s'" using idx by simp
    have p4: "i \<in> dom (indices ?s')" using idom by simp
    have p5: "\<forall>x\<in>dom (indices s). lowlinks ?s' x = lowlinks s x" using oldlow by simp
    have p6: "lowlinks ?s' i \<noteq> None" using l by simp
    have p7: "qlow s (stack s) (index s) (num (lowlinks ?s' i))"
      using l True by (simp add: qlow_def)
    have p8: "num (lowlinks ?s' i) = index s \<longrightarrow> stack ?s' = stack s" by simp
    have "stack ?s' = [] @ stack s" by simp
    moreover have "seg_ok adj s (stack s) (num (lowlinks ?s' i)) ?s' []"
      by (simp add: seg_ok_def)
    ultimately have p9: "\<exists>new. stack ?s' = new @ stack s \<and>
                           seg_ok adj s (stack s) (num (lowlinks ?s' i)) ?s' new" by blast
    have "cpost adj s i ?s'" using p1 p2 p3 p4 p5 p6 p7 p8 p9 by (rule cpostI)
    with run show ?thesis by blast
  next
    case False
    have "lowlinks sk i \<noteq> indices sk i" using l ink False by simp
    then have fin_eq: "finish i sk = Some sk" by (rule finish_nonroot)
    have run: "strongConnect (Suc n) adj i s = Some (Inr sk)"
      by (simp add: strongConnect_Suc f fin_eq)
    from qk nl have "l = ?k \<or> (\<exists>y\<in>set ?rest. indices ?s0 y = Some l)" by (simp add: qlow_def)
    with False obtain y where y: "y \<in> set ?rest" "indices ?s0 y = Some l" by blast
    from y(1) inot have "y \<noteq> i" by blast
    with y(2) have "indices s y = Some l" by simp
    with y(1) have "qlow s (stack s) (index s) l" unfolding qlow_def by blast
    then have p7: "qlow s (stack s) (index s) (num (lowlinks sk i))" using nl by simp
    have p8: "num (lowlinks sk i) = index s \<longrightarrow> stack sk = stack s" using nl False by simp
    have st: "stack sk = (seg @ [i]) @ stack s" using stk by simp
    have "set seg \<inter> dom (indices s) = {}" using sg1 by auto
    with un have a: "set (seg @ [i]) \<inter> dom (indices s) = {}" by auto
    have "seg_ok adj s (stack s) l sk (seg @ [i])"
      unfolding seg_ok_def using a allvis lowP by (intro conjI)
    then have "seg_ok adj s (stack s) (num (lowlinks sk i)) sk (seg @ [i])" using nl by simp
    with st have p9: "\<exists>new. stack sk = new @ stack s \<and>
                         seg_ok adj s (stack s) (num (lowlinks sk i)) sk new" by blast
    have "cpost adj s i sk" using invk exts idx idom oldlow lsome p7 p8 p9 by (rule cpostI)
    with run show ?thesis by blast
  qed
qed

subsection \<open>detectCycles and validateDag on any list\<close>

lemma top_loop_complete:
  assumes fin: "finite V" and closed: "\<forall>i\<in>V. set (successors adj i) \<subseteq> V"
      and fuel: "card V < n"
      and body: "\<And>t s. body t s = (if indices s (node_id t) = None
                                      then strongConnect n adj (node_id t) s else Some (Inr s))"
  shows "cinv adj s \<Longrightarrow> stack s = [] \<Longrightarrow> node_id ` set xs \<subseteq> V \<Longrightarrow>
         \<exists>s'. for_each body xs s = Some (Inr s') \<and> cinv adj s' \<and> stack s' = [] \<and>
              dom (indices s) \<subseteq> dom (indices s') \<and> node_id ` set xs \<subseteq> dom (indices s')"
proof (induction xs arbitrary: s)
  case Nil
  then show ?case by simp
next
  case (Cons t xs)
  have "\<exists>s1. body t s = Some (Inr s1) \<and> cinv adj s1 \<and> stack s1 = [] \<and>
             dom (indices s) \<subseteq> dom (indices s1) \<and> node_id t \<in> dom (indices s1)"
  proof (cases "indices s (node_id t) = None")
    case True
    have tV: "node_id t \<in> V" using Cons.prems(3) by simp
    have "card (V - dom (indices s)) \<le> card V" using fin by (intro card_mono) auto
    with fuel have f: "card (V - dom (indices s)) < n" by simp
    from sc_complete [OF fin closed Cons.prems(1) True tV f] obtain s' where
      sc: "strongConnect n adj (node_id t) s = Some (Inr s')" and post: "cpost adj s (node_id t) s'"
      by (elim exE conjE)
    from post have inv': "cinv adj s'" and ext': "extends s s'" and
      dd: "node_id t \<in> dom (indices s')" and
      ql: "qlow s (stack s) (index s) (num (lowlinks s' (node_id t)))" and
      rt: "num (lowlinks s' (node_id t)) = index s \<longrightarrow> stack s' = stack s"
      unfolding cpost_def by blast+
    from ql Cons.prems(2) have "num (lowlinks s' (node_id t)) = index s" by (simp add: qlow_def)
    with rt Cons.prems(2) have st': "stack s' = []" by simp
    from ext' have dom': "dom (indices s) \<subseteq> dom (indices s')" by (simp add: extends_def)
    have b: "body t s = Some (Inr s')" using True sc by (simp add: body)
    from b inv' st' dom' dd show ?thesis by blast
  next
    case False
    then have b: "body t s = Some (Inr s)" by (auto simp: body)
    from False have "node_id t \<in> dom (indices s)" by auto
    with b Cons.prems(1,2) show ?thesis by blast
  qed
  then obtain s1 where b: "body t s = Some (Inr s1)" and i1: "cinv adj s1" and
    st1: "stack s1 = []" and d1: "dom (indices s) \<subseteq> dom (indices s1)" and
    t1: "node_id t \<in> dom (indices s1)" by (elim exE conjE)
  have "node_id ` set xs \<subseteq> V" using Cons.prems(3) by simp
  from Cons.IH [OF i1 st1 this] obtain s' where
    f: "for_each body xs s1 = Some (Inr s')" and i': "cinv adj s'" and st': "stack s' = []" and
    d': "dom (indices s1) \<subseteq> dom (indices s')" and x': "node_id ` set xs \<subseteq> dom (indices s')"
    by (elim exE conjE)
  have run: "for_each body (t # xs) s = Some (Inr s')" by (simp add: for_each_Cons b f)
  have "dom (indices s) \<subseteq> dom (indices s')" using d1 d' by blast
  moreover have "node_id ` set (t # xs) \<subseteq> dom (indices s')" using t1 d' x' by auto
  ultimately show ?case using run i' st' by blast
qed

lemma cinv_tarjan0: "cinv adj tarjan0"
  by (simp add: cinv_def tarjan0_def popped_def)

lemma successors_adjacency:
  "set (successors (adjacency ts) i) \<subseteq> set (concat (map dependsOn ts))"
proof (cases "adjacency ts i")
  case None
  then show ?thesis by (simp add: successors_def)
next
  case (Some ds)
  then have "(i, ds) \<in> set (rev (map (\<lambda>t. (node_id t, dependsOn t)) ts))"
    unfolding adjacency_def by (rule map_of_SomeD)
  then obtain t where "t \<in> set ts" "ds = dependsOn t" by auto
  with Some show ?thesis by (auto simp: successors_def)
qed

lemma detectCycles_complete:
  assumes fuel: "length ts + length (concat (map dependsOn ts)) < fuel"
  shows "\<exists>cn. detectCycles fuel ts = Some (Inr cn) \<and>
              set (map node_id ts) \<inter> nontrivial (adjacency ts) \<subseteq> set cn"
proof -
  let ?V = "set (map node_id ts) \<union> set (concat (map dependsOn ts))"
  let ?adj = "adjacency ts"
  have fin: "finite ?V" by simp
  have closed: "\<forall>i\<in>?V. set (successors ?adj i) \<subseteq> ?V"
    using successors_adjacency [of ts] by blast
  have "card ?V \<le> card (set (map node_id ts)) + card (set (concat (map dependsOn ts)))"
    by (rule card_Un_le)
  also have "\<dots> \<le> length (map node_id ts) + length (concat (map dependsOn ts))"
    by (intro add_mono card_length)
  finally have cf: "card ?V < fuel" using fuel by simp
  have "\<exists>s'. for_each (top_body fuel ts) ts tarjan0 = Some (Inr s') \<and> cinv ?adj s' \<and>
             stack s' = [] \<and> dom (indices tarjan0) \<subseteq> dom (indices s') \<and>
             node_id ` set ts \<subseteq> dom (indices s')"
  proof (rule top_loop_complete [OF fin closed cf _ cinv_tarjan0])
    show "\<And>t s. top_body fuel ts t s = (if indices s (node_id t) = None
            then strongConnect fuel ?adj (node_id t) s else Some (Inr s))"
      by (simp add: top_body_def)
    show "stack tarjan0 = []" by (simp add: tarjan0_def)
    show "node_id ` set ts \<subseteq> ?V" by auto
  qed
  then obtain s' where f: "for_each (top_body fuel ts) ts tarjan0 = Some (Inr s')" and
    inv: "cinv ?adj s'" and st: "stack s' = []" and ids: "node_id ` set ts \<subseteq> dom (indices s')"
    by (elim exE conjE)
  from inv have "popped s' \<inter> nontrivial ?adj \<subseteq> set (cycleNodes s')" by (simp add: cinv_def)
  moreover have "popped s' = dom (indices s')" using st by (simp add: popped_def)
  moreover have "set (map node_id ts) \<subseteq> dom (indices s')" using ids by simp
  ultimately have "set (map node_id ts) \<inter> nontrivial ?adj \<subseteq> set (cycleNodes s')"
    by blast
  moreover have "detectCycles fuel ts = Some (Inr (cycleNodes s'))"
    by (simp add: detectCycles_top f)
  ultimately show ?thesis by blast
qed

lemma on_cycle_nontrivial:
  assumes dist: "distinct (map node_id ts)" and x: "x \<in> on_cycle ts"
  shows "x \<in> set (map node_id ts) \<inter> nontrivial (adjacency ts)"
proof -
  let ?E = "dep_edges ts"
  from x obtain y where y: "y \<noteq> x" and xy: "(x, y) \<in> ?E\<^sup>+" and yx: "(y, x) \<in> ?E\<^sup>+"
    unfolding on_cycle_def by blast
  from xy have "(x, y) \<in> ?E\<^sup>*" by (rule trancl_into_rtrancl)
  moreover from y have "x \<noteq> y" by simp
  ultimately have "\<exists>z. (x, z) \<in> ?E \<and> z \<noteq> x \<and> (z, y) \<in> ?E\<^sup>*" by (rule first_step_away)
  then obtain z where z: "(x, z) \<in> ?E" "z \<noteq> x" "(z, y) \<in> ?E\<^sup>*" by (elim exE conjE)
  from yx have "(y, x) \<in> ?E\<^sup>*" by (rule trancl_into_rtrancl)
  with z(3) have zx: "(z, x) \<in> ?E\<^sup>*" by (rule rtrancl_trans)
  from z(1) have idx: "x \<in> set (map node_id ts)" by (auto simp: dep_edges_def)
  have E: "adj_edges (adjacency ts) = ?E" using dist by (rule adj_edges_adjacency)
  from z(1) have "z \<in> set (successors (adjacency ts) x)"
    unfolding E [symmetric] by (simp add: adj_edges_def)
  with z(2) zx have "x \<in> nontrivial (adjacency ts)" unfolding nontrivial_def E by blast
  with idx show ?thesis by blast
qed

lemma join_mentions: "i \<in> set xs \<Longrightarrow> mentions (join sep xs) i"
proof (induction sep xs rule: join.induct)
  case (1 sep)
  then show ?case by simp
next
  case (2 sep x)
  then have "join sep [x] = [] @ i @ []" by simp
  then show ?case unfolding mentions_def by blast
next
  case (3 sep x y rest)
  show ?case
  proof (cases "i = x")
    case True
    then have "join sep (x # y # rest) = [] @ i @ (sep @ join sep (y # rest))" by simp
    then show ?thesis unfolding mentions_def by blast
  next
    case False
    with 3 have "mentions (join sep (y # rest)) i" by simp
    then obtain pre post where "join sep (y # rest) = pre @ i @ post"
      unfolding mentions_def by blast
    then have "join sep (x # y # rest) = (x @ sep @ pre) @ i @ post" by simp
    then show ?thesis unfolding mentions_def by blast
  qed
qed

lemma mentions_append: "mentions m i \<Longrightarrow> mentions (p @ m) i"
proof -
  assume "mentions m i"
  then obtain pre post where "m = pre @ i @ post" unfolding mentions_def by blast
  then have "p @ m = (p @ pre) @ i @ post" by simp
  then show ?thesis unfolding mentions_def by blast
qed

lemma validateDag_reports_cycles:
  assumes dist: "distinct (map node_id ts)"
      and fuel: "length ts + length (concat (map dependsOn ts)) < fuel"
      and cyc: "on_cycle ts \<noteq> {}"
  shows "\<exists>r. validateDag fuel ts = Some (Inr r) \<and> \<not> valid r \<and>
             (\<exists>e\<in>set (errors r). \<forall>x\<in>on_cycle ts. mentions e x)"
proof -
  from detectCycles_complete [OF fuel] obtain cn where
    dc: "detectCycles fuel ts = Some (Inr cn)" and
    sub: "set (map node_id ts) \<inter> nontrivial (adjacency ts) \<subseteq> set cn" by (elim exE conjE)
  have on: "on_cycle ts \<subseteq> set cn" using on_cycle_nontrivial [OF dist] sub by blast
  with cyc have ne: "cn \<noteq> []" by auto
  let ?msg = "''Cycle detected involving tasks: '' @ join '', '' cn"
  let ?errs = "duplicate_errors {} ts @ missing_errors (set (map node_id ts)) ts @ [?msg]"
  let ?r = "\<lparr>valid = (length ?errs = 0), errors = ?errs\<rparr>"
  have ce: "cycle_errors cn = [?msg]" using ne by (simp add: cycle_errors_def)
  have run: "validateDag fuel ts = Some (Inr ?r)"
    by (simp add: validateDag_def dc ce)
  have nv: "\<not> valid ?r" by simp
  have m: "\<forall>x\<in>on_cycle ts. mentions ?msg x"
  proof
    fix x assume "x \<in> on_cycle ts"
    with on have "x \<in> set cn" by blast
    then have "mentions (join '', '' cn) x" by (rule join_mentions)
    then show "mentions ?msg x" by (rule mentions_append)
  qed
  have "?msg \<in> set (errors ?r)" by simp
  with m have "\<exists>e\<in>set (errors ?r). \<forall>x\<in>on_cycle ts. mentions e x" by blast
  with run nv show ?thesis by blast
qed

subsection \<open>The verdict of validateDag\<close>

lemmas validateDag_eval =
  validateDag_def detectCycles_def for_each_def loop_step_def tarjan0_def
  strongConnect.simps(2) adjacency_def successors_def enter_def lower_def finish_def
  task_def num_def cycle_errors_def missing_errors_def eval_nat_numeral

lemma on_cycleI:
  "y \<noteq> x \<Longrightarrow> (x, y) \<in> (dep_edges ts)\<^sup>+ \<Longrightarrow> (y, x) \<in> (dep_edges ts)\<^sup>+ \<Longrightarrow> x \<in> on_cycle ts"
  unfolding on_cycle_def by blast

lemma on_cycle_nonempty: "x \<in> on_cycle ts \<Longrightarrow> on_cycle ts \<noteq> {}"
  by blast

text \<open>
  Claim C4, as stated, fails. A task that depends on itself is accepted: a component of
  one node is never recorded. A list without cycles is rejected when a dependency names
  no task of the list, or when two tasks share an id. And when a later task reuses the
  id of a member of a cycle, the adjacency table keeps the later task's dependencies
  only: the one error reported names the duplicated id and not the other member.
\<close>

theorem validateDag_claim_counterexample:
  "(''t1'', ''t1'') \<in> (dep_edges self_dependent)\<^sup>+ \<and>
   validateDag 3 self_dependent = Some (Inr \<lparr>valid = True, errors = []\<rparr>) \<and>
   acyclic (dep_edges unknown_dependency) \<and>
   validateDag 3 unknown_dependency =
     Some (Inr \<lparr>valid = False,
                errors = [''Task '' @ [CHR 0x22] @ ''t1'' @ [CHR 0x22] @
                          '' depends on unknown task '' @ [CHR 0x22] @ ''t99'' @ [CHR 0x22]]\<rparr>) \<and>
   acyclic (dep_edges duplicate_ids) \<and>
   validateDag 3 duplicate_ids =
     Some (Inr \<lparr>valid = False,
                errors = [''Duplicate task ID: '' @ [CHR 0x22] @ ''t1'' @ [CHR 0x22]]\<rparr>) \<and>
   (''t2'', ''t2'') \<in> (dep_edges shadowed_cycle)\<^sup>+ \<and>
   validateDag 4 shadowed_cycle =
     Some (Inr \<lparr>valid = False,
                errors = [''Duplicate task ID: '' @ [CHR 0x22] @ ''t1'' @ [CHR 0x22]]\<rparr>)"
proof -
  have "(''t1'', ''t1'') \<in> dep_edges self_dependent"
    by (simp add: dep_edges_def self_dependent_def task_def)
  then have a: "(''t1'', ''t1'') \<in> (dep_edges self_dependent)\<^sup>+" by (rule r_into_trancl)
  have b: "validateDag 3 self_dependent = Some (Inr \<lparr>valid = True, errors = []\<rparr>)"
    by (simp add: self_dependent_def validateDag_eval)
  have empty: "acyclic ({} :: (string \<times> string) set)" by (simp add: acyclic_def)
  have "dep_edges unknown_dependency = {(''t1'', ''t99'')}"
    by (auto simp: dep_edges_def unknown_dependency_def task_def)
  moreover have "acyclic {(''t1'', ''t99'')}" by (simp only: acyclic_insert) (simp add: empty)
  ultimately have c: "acyclic (dep_edges unknown_dependency)" by simp
  have d: "validateDag 3 unknown_dependency =
     Some (Inr \<lparr>valid = False,
                errors = [''Task '' @ [CHR 0x22] @ ''t1'' @ [CHR 0x22] @
                          '' depends on unknown task '' @ [CHR 0x22] @ ''t99'' @ [CHR 0x22]]\<rparr>)"
    by (simp add: unknown_dependency_def validateDag_eval)
  have "dep_edges duplicate_ids = {}"
    by (auto simp: dep_edges_def duplicate_ids_def task_def)
  with empty have e: "acyclic (dep_edges duplicate_ids)" by simp
  have f: "validateDag 3 duplicate_ids =
     Some (Inr \<lparr>valid = False,
                errors = [''Duplicate task ID: '' @ [CHR 0x22] @ ''t1'' @ [CHR 0x22]]\<rparr>)"
    by (simp add: duplicate_ids_def validateDag_eval)
  have "(''t2'', ''t1'') \<in> dep_edges shadowed_cycle"
    by (simp add: dep_edges_def shadowed_cycle_def task_def)
  moreover have "(''t1'', ''t2'') \<in> dep_edges shadowed_cycle"
    by (simp add: dep_edges_def shadowed_cycle_def task_def)
  ultimately have g: "(''t2'', ''t2'') \<in> (dep_edges shadowed_cycle)\<^sup>+"
    by (rule trancl_into_trancl [OF r_into_trancl])
  have h: "validateDag 4 shadowed_cycle =
     Some (Inr \<lparr>valid = False,
                errors = [''Duplicate task ID: '' @ [CHR 0x22] @ ''t1'' @ [CHR 0x22]]\<rparr>)"
    by (simp add: shadowed_cycle_def validateDag_eval)
  show ?thesis by (intro conjI) (fact a, fact b, fact c, fact d, fact e, fact f, fact g, fact h)
qed

text \<open>
  Claim C4, amended. For every task list with unique ids, and every run with more fuel
  than there are tasks and dependency entries: if every dependency names a task of the
  list and the \<open>dependsOn\<close> relation has no cycle, \<open>validateDag\<close> returns \<open>valid = true\<close>
  with an empty error list; if the \<open>dependsOn\<close> relation has a cycle through two or more
  distinct tasks, it returns \<open>valid = false\<close> and one of its errors mentions every task
  on such a cycle.
\<close>

theorem validateDag_verdict:
  assumes dist: "distinct (map node_id ts)"
      and fuel: "length ts + length (concat (map dependsOn ts)) < fuel"
  shows "((\<forall>t\<in>set ts. set (dependsOn t) \<subseteq> set (map node_id ts)) \<and> acyclic (dep_edges ts)
            \<longrightarrow> validateDag fuel ts = Some (Inr \<lparr>valid = True, errors = []\<rparr>)) \<and>
         (on_cycle ts \<noteq> {}
            \<longrightarrow> (\<exists>r. validateDag fuel ts = Some (Inr r) \<and> \<not> valid r \<and>
                      (\<exists>e\<in>set (errors r). \<forall>x\<in>on_cycle ts. mentions e x)))"
proof (intro conjI impI)
  assume "(\<forall>t\<in>set ts. set (dependsOn t) \<subseteq> set (map node_id ts)) \<and> acyclic (dep_edges ts)"
  with dist have wf: "well_formed ts" by (simp add: well_formed_def)
  from fuel have "length ts < fuel" by simp
  with wf show "validateDag fuel ts = Some (Inr \<lparr>valid = True, errors = []\<rparr>)"
    by (rule validateDag_accepts_well_formed)
next
  assume "on_cycle ts \<noteq> {}"
  with dist fuel show "\<exists>r. validateDag fuel ts = Some (Inr r) \<and> \<not> valid r \<and>
                          (\<exists>e\<in>set (errors r). \<forall>x\<in>on_cycle ts. mentions e x)"
    by (rule validateDag_reports_cycles)
qed

theorem validateDag_verdict_witness:
  "distinct (map node_id chain3) \<and> length chain3 + length (concat (map dependsOn chain3)) < 6 \<and>
   acyclic (dep_edges chain3) \<and>
   validateDag 6 chain3 = Some (Inr \<lparr>valid = True, errors = []\<rparr>) \<and>
   distinct (map node_id two_cycle) \<and>
   length two_cycle + length (concat (map dependsOn two_cycle)) < 5 \<and>
   ''t1'' \<in> on_cycle two_cycle \<and> ''t2'' \<in> on_cycle two_cycle \<and>
   (\<exists>r. validateDag 5 two_cycle = Some (Inr r) \<and> \<not> valid r \<and>
        (\<exists>e\<in>set (errors r). mentions e ''t1'' \<and> mentions e ''t2''))"
proof -
  from chain3_well_formed have d3: "distinct (map node_id chain3)" and
    r3: "\<forall>t\<in>set chain3. set (dependsOn t) \<subseteq> set (map node_id chain3)" and
    a3: "acyclic (dep_edges chain3)" by (simp_all add: well_formed_def)
  have f3: "length chain3 + length (concat (map dependsOn chain3)) < 6"
    by (simp add: chain3_def task_def)
  have v3: "validateDag 6 chain3 = Some (Inr \<lparr>valid = True, errors = []\<rparr>)"
    by (rule validateDag_verdict [OF d3 f3, THEN conjunct1, THEN mp]) (intro conjI r3 a3)
  have d2: "distinct (map node_id two_cycle)" by (simp add: two_cycle_def task_def)
  have f2: "length two_cycle + length (concat (map dependsOn two_cycle)) < 5"
    by (simp add: two_cycle_def task_def)
  have "(''t1'', ''t2'') \<in> dep_edges two_cycle" by (simp add: dep_edges_def two_cycle_def task_def)
  then have e12: "(''t1'', ''t2'') \<in> (dep_edges two_cycle)\<^sup>+" by (rule r_into_trancl)
  have "(''t2'', ''t1'') \<in> dep_edges two_cycle" by (simp add: dep_edges_def two_cycle_def task_def)
  then have e21: "(''t2'', ''t1'') \<in> (dep_edges two_cycle)\<^sup>+" by (rule r_into_trancl)
  have ne: "''t2'' \<noteq> ''t1''" by simp
  have ne': "''t1'' \<noteq> ''t2''" by simp
  have o1: "''t1'' \<in> on_cycle two_cycle" using ne e12 e21 by (rule on_cycleI)
  have o2: "''t2'' \<in> on_cycle two_cycle" using ne' e21 e12 by (rule on_cycleI)
  from o1 have nz: "on_cycle two_cycle \<noteq> {}" by (rule on_cycle_nonempty)
  have "\<exists>r. validateDag 5 two_cycle = Some (Inr r) \<and> \<not> valid r \<and>
            (\<exists>e\<in>set (errors r). \<forall>x\<in>on_cycle two_cycle. mentions e x)"
    by (rule validateDag_verdict [OF d2 f2, THEN conjunct2, THEN mp, OF nz])
  then obtain r where r: "validateDag 5 two_cycle = Some (Inr r)" "\<not> valid r" and
    ex: "\<exists>e\<in>set (errors r). \<forall>x\<in>on_cycle two_cycle. mentions e x" by (elim exE conjE)
  from ex obtain e where e: "e \<in> set (errors r)" "\<forall>x\<in>on_cycle two_cycle. mentions e x"
    by (elim bexE)
  from e(2) o1 have m1: "mentions e ''t1''" by (rule bspec)
  from e(2) o2 have m2: "mentions e ''t2''" by (rule bspec)
  from m1 m2 have "mentions e ''t1'' \<and> mentions e ''t2''" by (rule conjI)
  with e(1) have me: "\<exists>e\<in>set (errors r). mentions e ''t1'' \<and> mentions e ''t2''" by (rule rev_bexI)
  have v2: "\<exists>r. validateDag 5 two_cycle = Some (Inr r) \<and> \<not> valid r \<and>
        (\<exists>e\<in>set (errors r). mentions e ''t1'' \<and> mentions e ''t2'')"
    by (intro exI [of _ r] conjI) (fact r(1), fact r(2), fact me)
  show ?thesis by (intro conjI) (fact d3, fact f3, fact a3, fact v3, fact d2, fact f2, fact o1, fact o2, fact v2)
qed

text \<open>
  A task whose only dependency is itself is accepted, whatever its id and for every run
  that has fuel for the one call it makes. On that list the recursion of \<open>getWave\<close>
  calls itself with the same arguments: no amount of fuel lets \<open>computeWaves\<close> return.
\<close>

lemma validateDag_self_dependency:
  "validateDag (Suc (Suc n)) [task i [i]] = Some (Inr \<lparr>valid = True, errors = []\<rparr>)"
  by (simp add: validateDag_def detectCycles_def for_each_def loop_step_def tarjan0_def
      strongConnect.simps(2) adjacency_def successors_def enter_def lower_def finish_def
      task_def num_def cycle_errors_def missing_errors_def)

lemma getWave_self_dependency:
  "wi i = None \<Longrightarrow> getWave n (taskMap [task i [i]]) i wi = None"
  by (induction n) (simp_all add: getWave.simps(2) for_each_Cons taskMap_def task_def)

lemma computeWaves_self_dependency: "computeWaves n [task i [i]] = None"
proof -
  have "node_id (task i [i]) = i" by (simp add: task_def)
  then show ?thesis by (simp add: computeWaves_def for_each_Cons getWave_self_dependency)
qed

section \<open>Integration phase\<close>

lemma completed_with_branch_persist [simp]:
  "completed_with_branch (fst (persist c w st)) = completed_with_branch st"
  by (simp add: persist_def completed_with_branch_def Let_def)

text \<open>
  Claim C10. A task counts as completed for integration only when its status is
  \<open>completed\<close> and its branch name is set. When at least one task has status
  \<open>completed\<close> but every such task has a null branch name, \<open>runIntegration\<close> raises
  ``No completed tasks to integrate'', leaves \<open>integration.status\<close> and \<open>phase\<close> at
  \<open>failed\<close>, and creates no session, whatever the collaborator would answer.
\<close>

theorem runIntegration_no_branch:
  assumes some: "\<exists>t \<in> set (map snd (tasks state0)). status t = TaskCompleted"
      and nobranch: "\<forall>t \<in> set (map snd (tasks state0)). status t = TaskCompleted \<longrightarrow> branchName t = None"
  shows "(\<forall>t \<in> set (completed_with_branch state0). status t = TaskCompleted \<and> branchName t \<noteq> None) \<and>
         (\<exists>state' w'. runIntegration fuel c w state0 =
            Some (Inl ''No completed tasks to integrate'', state', w') \<and>
          in_status (integration state') = StFailed \<and> phase state' = PhaseFailed \<and>
          n_createSession w' = n_createSession w)"
proof -
  have e: "completed_with_branch state0 = []"
    using nobranch by (auto simp: completed_with_branch_def filter_empty_conv)
  then have "collect_completed (fst (persist c w (state0\<lparr>phase := PhaseIntegrating,
             integration := (integration state0)\<lparr>in_status := StRunning\<rparr>\<rparr>))) = Inr []"
    by (simp add: collect_completed_def completed_with_branch_def persist_def Let_def)
  then have "\<exists>state' w'. runIntegration fuel c w state0 =
            Some (Inl ''No completed tasks to integrate'', state', w') \<and>
          in_status (integration state') = StFailed \<and> phase state' = PhaseFailed \<and>
          n_createSession w' = n_createSession w"
    by (simp add: runIntegration_def persist_def Let_def split: prod.splits)
  with e show ?thesis by simp
qed

theorem runIntegration_no_branch_witness:
  "status (exec_of ''t1'' TaskCompleted None) = TaskCompleted \<and>
   run_outcome (runIntegration 0 (steady_client [] []) world0
      (two_task_project TaskCompleted None TaskFailed (Some ''oi/t2-b'')))
     = Some (Inl ''No completed tasks to integrate'')"
proof -
  let ?s = "two_task_project TaskCompleted None TaskFailed (Some ''oi/t2-b'')"
  have t: "map snd (tasks ?s) = [exec_of ''t1'' TaskCompleted None, exec_of ''t2'' TaskFailed (Some ''oi/t2-b'')]"
    by (simp add: two_task_project_def)
  have h1: "\<exists>t \<in> set (map snd (tasks ?s)). status t = TaskCompleted"
    unfolding t by (simp add: exec_of_def)
  have h2: "\<forall>t \<in> set (map snd (tasks ?s)). status t = TaskCompleted \<longrightarrow> branchName t = None"
    unfolding t by (simp add: exec_of_def)
  from runIntegration_no_branch [OF h1 h2, of 0 "steady_client [] []" world0]
  show ?thesis by (auto simp: run_outcome_def exec_of_def)
qed

text \<open>
  Claim C2, as stated, fails: an artifact list whose only artifact has type
  \<open>pull request\<close> and a URL leaves \<open>prUrl\<close> null, in the result and in the state. The
  source compares the type with \<open>pr\<close>.
\<close>

theorem pull_request_type_counterexample:
  "integration_summary
     (runIntegration 3 (steady_client [done_event] [pull_request_artifact]) world0 both_done)
     = Some (Inr \<lparr>res_branchName = Some ''integrate/all'', res_prUrl = None\<rparr>,
             None, StCompleted, PhaseCompleted)"
  by code_simp

lemma find_as_filter: "find P xs = (case filter P xs of [] \<Rightarrow> None | x # _ \<Rightarrow> Some x)"
  by (induction xs) auto

lemma int_poll_world:
  assumes "n_getSession w' = n_getSession w" "n_getEvents w' = n_getEvents w"
  shows "int_pollForCompletion fuel c w' seen chunks hs =
           map_option (\<lambda>rw. (fst rw, w'\<lparr>n_getSession := n_getSession (snd rw),
                                         n_getEvents := n_getEvents (snd rw)\<rparr>))
             (int_pollForCompletion fuel c w seen chunks hs)"
  using assms
proof (induction fuel arbitrary: w w' seen chunks hs)
  case 0
  then show ?case by simp
next
  case (Suc fuel)
  show ?case
  proof (cases "getSession_res c (n_getSession w)")
    case (Inl e)
    with Suc.prems show ?thesis by (simp add: getSession_def)
  next
    case gs: (Inr raw)
    show ?thesis
    proof (cases "getEvents_res c (n_getEvents w)")
      case (Inl e)
      with gs Suc.prems show ?thesis by (simp add: getSession_def getEvents_def Let_def)
    next
      case ge: (Inr events)
      let ?w1 = "w\<lparr>n_getSession := Suc (n_getSession w), n_getEvents := Suc (n_getEvents w)\<rparr>"
      let ?w1' = "w'\<lparr>n_getSession := Suc (n_getSession w'), n_getEvents := Suc (n_getEvents w')\<rparr>"
      have a: "n_getSession ?w1' = n_getSession ?w1" "n_getEvents ?w1' = n_getEvents ?w1"
        using Suc.prems by simp_all
      note ih = Suc.IH [OF a]
      obtain seen' chunks' hs' ec where
        f: "foldl int_scan_event (seen, chunks, hs \<or> isProcessing (normalize_session raw), False)
              events = (seen', chunks', hs', ec)"
        by (cases "foldl int_scan_event
              (seen, chunks, hs \<or> isProcessing (normalize_session raw), False) events") auto
      show ?thesis
        using gs ge f Suc.prems ih [of seen' chunks' hs']
        by (simp add: getSession_def getEvents_def Let_def option.map_comp comp_def
              split: option.splits)
    qed
  qed
qed

lemma collect_completed_two:
  assumes two: "2 \<le> length (completed_with_branch st)" and pl: "plan st = Some p"
  shows "\<exists>a b rest. collect_completed st = Inr (a # b # rest)"
proof -
  from two obtain x y zs where "completed_with_branch st = x # y # zs"
    by (cases "completed_with_branch st"; cases "tl (completed_with_branch st)") auto
  with pl show ?thesis by (simp add: collect_completed_def)
qed

text \<open>
  Claim C2, amended. When at least two completed tasks have a branch, so that
  \<open>runIntegration\<close> merges, when the collaborator creates the session and accepts the
  prompt, and when integration polling completes, then for the session that the next
  \<open>getSession\<close> call reads and for every artifact list returned by \<open>getArtifacts\<close>
  that contains exactly one artifact with type \<open>pr\<close> and a non-empty URL:
  \<open>runIntegration\<close> returns that URL and the branch name of the session, stores them in
  \<open>integration.prUrl\<close> and \<open>integration.mergedBranch\<close>, and sets the status and the
  phase to \<open>completed\<close>. Polling reads and advances the call counts of \<open>getSession\<close>
  and \<open>getEvents\<close> only, which the steps before it leave as they are in \<open>w\<close>.
\<close>

theorem runIntegration_records_pr:
  assumes two: "2 \<le> length (completed_with_branch state0)"
      and pl: "plan state0 = Some p"
      and cs: "createSession_res c (n_createSession w) = Inr sid"
      and sp: "sendPrompt_res c (n_sendPrompt w) = Inr u"
      and poll: "int_pollForCompletion fuel c w [] [] False = Some (Inr outp, wp)"
      and gs: "getSession_res c (n_getSession wp) = Inr raw"
      and arts: "getArtifacts_res c (n_getArtifacts w) = Inr artifacts"
      and one: "filter (\<lambda>a. art_type a = ''pr'' \<and> truthy (art_url a)) artifacts = [a]"
  shows "\<exists>state' w'.
           runIntegration fuel c w state0 =
             Some (Inr \<lparr>res_branchName = raw_branchName raw, res_prUrl = art_url a\<rparr>, state', w') \<and>
           prUrl (integration state') = art_url a \<and>
           mergedBranch (integration state') = raw_branchName raw \<and>
           in_status (integration state') = StCompleted \<and> phase state' = PhaseCompleted"
proof -
  let ?st = "state0\<lparr>phase := PhaseIntegrating,
             integration := (integration state0)\<lparr>in_status := StRunning\<rparr>\<rparr>"
  obtain state w1 where p1: "persist c w ?st = (state, w1)" by (cases "persist c w ?st")
  have w1: "w1 = w\<lparr>n_dateNow := Suc (n_dateNow w), saved := Some state\<rparr>"
    using p1 by (auto simp: persist_def Let_def)
  have cwb: "completed_with_branch state = completed_with_branch state0"
    using p1 by (auto simp: persist_def completed_with_branch_def Let_def)
  have pls: "plan state = Some p" using p1 pl by (auto simp: persist_def Let_def)
  from collect_completed_two [OF two [folded cwb] pls] obtain x y rest where
    cc: "collect_completed state = Inr (x # y # rest)" by blast
  have c2: "createSession c w1 = (Inr sid, w1\<lparr>n_createSession := Suc (n_createSession w1)\<rparr>)"
    using cs by (simp add: createSession_def w1)
  let ?w2 = "w1\<lparr>n_createSession := Suc (n_createSession w1)\<rparr>"
  let ?st1 = "state\<lparr>integration := (integration state)\<lparr>in_sessionId := Some sid\<rparr>\<rparr>"
  obtain state1 w3 where p2: "persist c ?w2 ?st1 = (state1, w3)" by (cases "persist c ?w2 ?st1")
  have w3: "w3 = ?w2\<lparr>n_dateNow := Suc (n_dateNow ?w2), saved := Some state1\<rparr>"
    using p2 by (auto simp: persist_def Let_def)
  have s4: "sendPrompt c w3 = (Inr u, w3\<lparr>n_sendPrompt := Suc (n_sendPrompt w3)\<rparr>)"
    using sp by (simp add: sendPrompt_def w3 w1)
  let ?w4 = "w3\<lparr>n_sendPrompt := Suc (n_sendPrompt w3)\<rparr>"
  have eq: "n_getSession ?w4 = n_getSession w" "n_getEvents ?w4 = n_getEvents w"
    by (simp_all add: w3 w1)
  let ?w5 = "?w4\<lparr>n_getSession := n_getSession wp, n_getEvents := n_getEvents wp\<rparr>"
  have poll4: "int_pollForCompletion fuel c ?w4 [] [] False = Some (Inr outp, ?w5)"
    using int_poll_world [OF eq, of fuel c "[]" "[]" False] poll by simp
  have n5: "n_getArtifacts w3 = n_getArtifacts w" by (simp add: w3 w1)
  have f: "find_pr_artifact artifacts = Some a"
    using one by (simp add: find_pr_artifact_def find_as_filter)
  have "a \<in> set (filter (\<lambda>a. art_type a = ''pr'' \<and> truthy (art_url a)) artifacts)"
    using one by simp
  then have "truthy (art_url a)" by simp
  with f have url: "pr_url_of (find_pr_artifact artifacts) = art_url a"
    by (simp add: pr_url_of_def)
  have br: "ss_branchName (normalize_session raw) = raw_branchName raw"
    by (simp add: normalize_session_def)
  let ?res = "\<lparr>res_branchName = raw_branchName raw, res_prUrl = art_url a\<rparr>"
  have fin: "\<exists>state' w'. integration_finish c ?w5 state1 = Some (Inr ?res, state', w') \<and>
           prUrl (integration state') = art_url a \<and>
           mergedBranch (integration state') = raw_branchName raw \<and>
           in_status (integration state') = StCompleted \<and> phase state' = PhaseCompleted"
    by (simp add: integration_finish_def getSession_def getArtifacts_def n5 gs arts url br
          persist_def Let_def)
  have "runIntegration fuel c w state0 = integration_finish c ?w5 state1"
    unfolding runIntegration_def p1 by (simp add: cc c2 p2 s4 poll4)
  with fin show ?thesis by simp
qed

theorem runIntegration_records_pr_witness:
  "length (completed_with_branch both_done) = 2 \<and>
   (\<exists>state' w'.
      runIntegration 1 (steady_client [done_event] [pr_artifact]) world0 both_done =
        Some (Inr \<lparr>res_branchName = Some ''integrate/all'',
                    res_prUrl = Some ''https://example.test/pr/7''\<rparr>, state', w') \<and>
      prUrl (integration state') = Some ''https://example.test/pr/7'' \<and>
      mergedBranch (integration state') = Some ''integrate/all'' \<and>
      in_status (integration state') = StCompleted \<and> phase state' = PhaseCompleted)"
proof -
  let ?c = "steady_client [done_event] [pr_artifact]"
  let ?raw = "\<lparr>raw_branchName = Some ''integrate/all'', raw_sandbox_status = Some ''ready''\<rparr>"
  have two: "length (completed_with_branch both_done) = 2" by code_simp
  then have two': "2 \<le> length (completed_with_branch both_done)" by simp
  have pl: "plan both_done = Some \<lparr>plan_summary = ''two steps'',
                      plan_tasks = [task ''t1'' [], task ''t2'' [''t1'']]\<rparr>"
    by (simp add: both_done_def two_task_project_def)
  have cs: "createSession_res ?c (n_createSession world0) = Inr ''s1''"
    by (simp add: steady_client_def)
  have sp: "sendPrompt_res ?c (n_sendPrompt world0) = Inr ()"
    by (simp add: steady_client_def)
  have poll: "int_pollForCompletion 1 ?c world0 [] [] False
                = Some (Inr [], world0\<lparr>n_getSession := 1, n_getEvents := 1\<rparr>)"
    by code_simp
  have gs: "getSession_res ?c (n_getSession (world0\<lparr>n_getSession := 1, n_getEvents := 1\<rparr>))
              = Inr ?raw"
    by (simp add: steady_client_def)
  have arts: "getArtifacts_res ?c (n_getArtifacts world0) = Inr [pr_artifact]"
    by (simp add: steady_client_def)
  have one: "filter (\<lambda>a. art_type a = ''pr'' \<and> truthy (art_url a)) [pr_artifact] = [pr_artifact]"
    by (simp add: pr_artifact_def)
  have u: "art_url pr_artifact = Some ''https://example.test/pr/7''"
    by (simp add: pr_artifact_def)
  from runIntegration_records_pr [OF two' pl cs sp poll gs arts one]
  have "\<exists>state' w'.
      runIntegration 1 ?c world0 both_done =
        Some (Inr \<lparr>res_branchName = Some ''integrate/all'',
                    res_prUrl = Some ''https://example.test/pr/7''\<rparr>, state', w') \<and>
      prUrl (integration state') = Some ''https://example.test/pr/7'' \<and>
      mergedBranch (integration state') = Some ''integrate/all'' \<and>
      in_status (integration state') = StCompleted \<and> phase state' = PhaseCompleted"
    by (simp add: u)
  with two show ?thesis by (rule conjI)
qed

text \<open>
  Claim C3 describes what the executor's \<open>pollTask\<close> does and what the planner does for a
  failure that carries a message; the integrator's loop does not. On a poll that returns
  an \<open>execution_complete\<close> event with \<open>success = false\<close> and error \<open>boom\<close>, the
  integrator's \<open>pollForCompletion\<close> returns normally and \<open>runIntegration\<close> ends with
  phase \<open>completed\<close>, while the planner's \<open>pollForCompletion\<close> raises
  ``Agent execution failed: boom'' on the same poll. The planner, in turn, returns normally
  when the failing \<open>execution_complete\<close> event carries no error message.
\<close>

theorem integrator_ignores_failure:
  "int_pollForCompletion 1 (steady_client [failed_event] []) world0 [] [] False
     = Some (Inr [], world0\<lparr>n_getSession := 1, n_getEvents := 1\<rparr>) \<and>
   pl_pollForCompletion 1 (steady_client [failed_event] []) world0 [] [] False
     = Some (Inl ''Agent execution failed: boom'', world0\<lparr>n_getSession := 1, n_getEvents := 1\<rparr>) \<and>
   integration_summary (runIntegration 1 (steady_client [failed_event] []) world0 both_done)
     = Some (Inr \<lparr>res_branchName = Some ''integrate/all'', res_prUrl = None\<rparr>,
             None, StCompleted, PhaseCompleted) \<and>
   pl_pollForCompletion 1 (steady_client [failed_silent_event] []) world0 [] [] False
     = Some (Inr [], world0\<lparr>n_getSession := 1, n_getEvents := 1\<rparr>)"
  by code_simp

section \<open>Execution phase\<close>

subsection \<open>How the task table changes\<close>

lemma moved_refl [simp]: "moved x x"
  by (simp add: moved_def)



















subsection \<open>What the rounds keep\<close>






subsection \<open>The readiness filter\<close>




lemma with_status_none:
  "\<forall>kx\<in>set (tasks st). status (snd kx) \<noteq> s \<Longrightarrow> with_status s st = []"
  by (auto simp: with_status_def filter_empty_conv)



subsection \<open>The calls of spawnTask\<close>







subsection \<open>The initialisation of the task table\<close>






subsection \<open>Readiness\<close>





section \<open>Project store\<close>

lemma saveProject_state [simp]:
  "fst (saveProject stringify home clock fs state) = state\<lparr>updatedAt := clock\<rparr>"
  by (simp add: saveProject_def Let_def)





section \<open>Properties of the retry policy\<close>

lemma retry_loop_calls:
  "retry_loop fn maxA sa a le = (calls, out) \<Longrightarrow>
     calls = [a..<a + length calls] \<and> int (a + length calls) \<le> max (int a) maxA"
proof (induction fn maxA sa a le arbitrary: calls out rule: retry_loop.induct)
  case (1 fn maxA sa attempt lastError)
  show ?case
  proof (cases "int attempt < maxA")
    case False
    with "1.prems" show ?thesis by (simp add: retry_loop.simps [of fn maxA sa attempt])
  next
    case lt: True
    show ?thesis
    proof (cases "fn attempt")
      case (Inr v)
      with lt "1.prems" show ?thesis
        by (auto simp: retry_loop.simps [of fn maxA sa attempt])
    next
      case (Inl err)
      show ?thesis
      proof (cases "aborts sa err")
        case True
        with lt Inl "1.prems" show ?thesis
          by (auto simp: retry_loop.simps [of fn maxA sa attempt])
      next
        case False
        obtain cs o' where rec: "retry_loop fn maxA sa (Suc attempt) (Some err) = (cs, o')"
          by (cases "retry_loop fn maxA sa (Suc attempt) (Some err)")
        from "1.IH" [OF lt Inl False rec]
        have ih: "cs = [Suc attempt..<Suc attempt + length cs]"
          "int (Suc attempt + length cs) \<le> max (int (Suc attempt)) maxA" by auto
        from lt Inl False rec "1.prems" have c: "calls = attempt # cs"
          by (auto simp: retry_loop.simps [of fn maxA sa attempt])
        have "attempt < attempt + length calls" using c by simp
        then have "[attempt..<attempt + length calls] = attempt # [Suc attempt..<attempt + length calls]"
          by (rule upt_conv_Cons)
        also have "attempt + length calls = Suc attempt + length cs" using c by simp
        finally have "[attempt..<attempt + length calls] = calls" using ih(1) c by simp
        moreover have "int (attempt + length calls) \<le> max (int attempt) maxA"
          using ih(2) c lt by simp
        ultimately show ?thesis by simp
      qed
    qed
  qed
qed

lemma retry_loop_stop:
  assumes lt: "int k < maxA" and le: "a \<le> k"
      and before: "\<forall>i. a \<le> i \<and> i < k \<longrightarrow> (\<exists>e. fn i = Inl e \<and> \<not> aborts sa e)"
      and stop: "(\<exists>v. fn k = Inr v) \<or> (\<exists>e. fn k = Inl e \<and> aborts sa e)"
  shows "retry_loop fn maxA sa a lastError =
           ([a..<Suc k], case fn k of Inr v \<Rightarrow> Inr v | Inl e \<Rightarrow> Inl (Some e))"
  using le before
proof (induction "k - a" arbitrary: a lastError)
  case 0
  then have ak: "a = k" by simp
  from stop show ?case
  proof
    assume "\<exists>v. fn k = Inr v"
    then obtain v where "fn k = Inr v" ..
    with lt ak show ?thesis by (simp add: retry_loop.simps [of fn maxA sa k])
  next
    assume "\<exists>e. fn k = Inl e \<and> aborts sa e"
    then obtain e where "fn k = Inl e" "aborts sa e" by blast
    with lt ak show ?thesis by (simp add: retry_loop.simps [of fn maxA sa k])
  qed
next
  case (Suc d)
  then have ak: "a < k" by simp
  with Suc.prems(2) obtain e where e: "fn a = Inl e" "\<not> aborts sa e" by blast
  from ak lt have alt: "int a < maxA" by simp
  have d: "d = k - Suc a" using Suc.hyps(2) by simp
  have le': "Suc a \<le> k" using ak by simp
  have before': "\<forall>i. Suc a \<le> i \<and> i < k \<longrightarrow> (\<exists>e. fn i = Inl e \<and> \<not> aborts sa e)"
    using Suc.prems(2) by auto
  from Suc.hyps(1) [OF d le' before']
  have rec: "retry_loop fn maxA sa (Suc a) (Some e) =
           ([Suc a..<Suc k], case fn k of Inr v \<Rightarrow> Inr v | Inl e \<Rightarrow> Inl (Some e))" .
  have "[a..<Suc k] = a # [Suc a..<Suc k]" using ak by (simp add: upt_conv_Cons)
  with alt e rec show ?case by (simp add: retry_loop.simps [of fn maxA sa a])
qed

lemma retry_loop_exhaust:
  assumes all: "\<forall>i. a \<le> i \<and> int i < maxA \<longrightarrow> (\<exists>e. fn i = Inl e \<and> \<not> aborts sa e)"
  shows "retry_loop fn maxA sa a lastError =
           ([a..<nat maxA],
            Inl (if int a < maxA then (case fn (nat maxA - 1) of Inl e \<Rightarrow> Some e | Inr v \<Rightarrow> None)
                 else lastError))"
  using all
proof (induction "nat maxA - a" arbitrary: a lastError)
  case 0
  then have "\<not> int a < maxA" by simp
  moreover from this have "[a..<nat maxA] = []" by simp
  ultimately show ?case by (simp add: retry_loop.simps [of fn maxA sa a])
next
  case (Suc d)
  then have alt: "int a < maxA" by simp
  with Suc.prems obtain e where e: "fn a = Inl e" "\<not> aborts sa e" by blast
  have d: "d = nat maxA - Suc a" using Suc.hyps(2) by simp
  have all': "\<forall>i. Suc a \<le> i \<and> int i < maxA \<longrightarrow> (\<exists>e. fn i = Inl e \<and> \<not> aborts sa e)"
    using Suc.prems by auto
  note rec = Suc.hyps(1) [OF d all', of "Some e"]
  have up: "[a..<nat maxA] = a # [Suc a..<nat maxA]" using alt by (simp add: upt_conv_Cons)
  show ?case
  proof (cases "int (Suc a) < maxA")
    case True
    with alt e rec up show ?thesis by (simp add: retry_loop.simps [of fn maxA sa a])
  next
    case False
    with alt have "nat maxA - 1 = a" by simp
    with False alt e rec up show ?thesis by (simp add: retry_loop.simps [of fn maxA sa a])
  qed
qed

text \<open>
  Claim C9. Let \<open>m\<close> be the \<open>maxAttempts\<close> option, 3 when it is not given. \<open>retry\<close>
  invokes the operation with the attempt indices \<open>0, 1, ...\<close> in order and at most \<open>m\<close>
  times. When the invocations before index \<open>k < m\<close> all fail with errors that
  \<open>shouldAbort\<close> does not accept, invocation \<open>k\<close> is made: if it succeeds, its value is
  returned and it was the last invocation; if it fails with an error that \<open>shouldAbort\<close>
  accepts, that error is raised and it was the last invocation. When all \<open>m\<close> invocations
  fail with errors that \<open>shouldAbort\<close> does not accept, exactly \<open>m\<close> invocations are
  made and the error of the last one is raised. With \<open>m \<le> 0\<close> nothing is invoked and the
  unassigned \<open>lastError\<close> is raised.
\<close>

theorem retry_contract:
  assumes m: "maxAttempts options = Some m \<or> maxAttempts options = None \<and> m = 3"
  shows
    "(\<forall>k v. int k < m \<and>
        (\<forall>i<k. \<exists>e. fn i = Inl e \<and> (\<forall>f. shouldAbort options = Some f \<longrightarrow> \<not> f e)) \<and>
        fn k = Inr v
        \<longrightarrow> retry fn options = ([0..<Suc k], Inr v)) \<and>
     (\<forall>k e f. int k < m \<and>
        (\<forall>i<k. \<exists>e. fn i = Inl e \<and> (\<forall>f. shouldAbort options = Some f \<longrightarrow> \<not> f e)) \<and>
        fn k = Inl e \<and> shouldAbort options = Some f \<and> f e
        \<longrightarrow> retry fn options = ([0..<Suc k], Inl (Some e))) \<and>
     (\<forall>e. 0 < m \<and>
        (\<forall>i. int i < m \<longrightarrow>
           (\<exists>e. fn i = Inl e \<and> (\<forall>f. shouldAbort options = Some f \<longrightarrow> \<not> f e))) \<and>
        fn (nat m - 1) = Inl e
        \<longrightarrow> retry fn options = ([0..<nat m], Inl (Some e))) \<and>
     (m \<le> 0 \<longrightarrow> retry fn options = ([], Inl None)) \<and>
     (\<forall>calls out. retry fn options = (calls, out)
        \<longrightarrow> calls = [0..<length calls] \<and> int (length calls) \<le> max 0 m)"
proof -
  let ?sa = "shouldAbort options"
  have am: "attempts_allowed options = m" using m by (auto simp: attempts_allowed_def)
  have ab: "\<And>e. aborts ?sa e \<longleftrightarrow> (\<exists>f. ?sa = Some f \<and> f e)"
    by (simp add: aborts_def split: option.splits)
  have r: "retry fn options = retry_loop fn m ?sa 0 None" by (simp add: retry_def am)
  have p1: "\<forall>k v. int k < m \<and>
        (\<forall>i<k. \<exists>e. fn i = Inl e \<and> (\<forall>f. ?sa = Some f \<longrightarrow> \<not> f e)) \<and> fn k = Inr v
        \<longrightarrow> retry fn options = ([0..<Suc k], Inr v)"
  proof (intro allI impI, elim conjE)
    fix k v
    assume lt: "int k < m" and fk: "fn k = Inr v"
      and bf: "\<forall>i<k. \<exists>e. fn i = Inl e \<and> (\<forall>f. ?sa = Some f \<longrightarrow> \<not> f e)"
    have before: "\<forall>i. 0 \<le> i \<and> i < k \<longrightarrow> (\<exists>e. fn i = Inl e \<and> \<not> aborts ?sa e)"
      using bf by (auto simp: ab)
    have stop: "(\<exists>v. fn k = Inr v) \<or> (\<exists>e. fn k = Inl e \<and> aborts ?sa e)" using fk by simp
    from retry_loop_stop [OF lt _ before stop, of None] fk
    show "retry fn options = ([0..<Suc k], Inr v)" by (simp add: r)
  qed
  have p2: "\<forall>k e f. int k < m \<and>
        (\<forall>i<k. \<exists>e. fn i = Inl e \<and> (\<forall>f. ?sa = Some f \<longrightarrow> \<not> f e)) \<and>
        fn k = Inl e \<and> ?sa = Some f \<and> f e
        \<longrightarrow> retry fn options = ([0..<Suc k], Inl (Some e))"
  proof (intro allI impI, elim conjE)
    fix k e f
    assume lt: "int k < m" and fk: "fn k = Inl e" and sf: "?sa = Some f" "f e"
      and bf: "\<forall>i<k. \<exists>e. fn i = Inl e \<and> (\<forall>f. ?sa = Some f \<longrightarrow> \<not> f e)"
    have before: "\<forall>i. 0 \<le> i \<and> i < k \<longrightarrow> (\<exists>e. fn i = Inl e \<and> \<not> aborts ?sa e)"
      using bf by (auto simp: ab)
    have "aborts ?sa e" using sf by (simp add: aborts_def)
    with fk have stop: "(\<exists>v. fn k = Inr v) \<or> (\<exists>e. fn k = Inl e \<and> aborts ?sa e)" by simp
    from retry_loop_stop [OF lt _ before stop, of None] fk
    show "retry fn options = ([0..<Suc k], Inl (Some e))" by (simp add: r)
  qed
  have p3: "\<forall>e. 0 < m \<and>
        (\<forall>i. int i < m \<longrightarrow> (\<exists>e. fn i = Inl e \<and> (\<forall>f. ?sa = Some f \<longrightarrow> \<not> f e))) \<and>
        fn (nat m - 1) = Inl e
        \<longrightarrow> retry fn options = ([0..<nat m], Inl (Some e))"
  proof (intro allI impI, elim conjE)
    fix e
    assume pos: "0 < m" and fl: "fn (nat m - 1) = Inl e"
      and al: "\<forall>i. int i < m \<longrightarrow> (\<exists>e. fn i = Inl e \<and> (\<forall>f. ?sa = Some f \<longrightarrow> \<not> f e))"
    have all: "\<forall>i. 0 \<le> i \<and> int i < m \<longrightarrow> (\<exists>e. fn i = Inl e \<and> \<not> aborts ?sa e)"
      using al by (auto simp: ab)
    from retry_loop_exhaust [OF all, of None] pos fl
    show "retry fn options = ([0..<nat m], Inl (Some e))" by (simp add: r)
  qed
  have p4: "m \<le> 0 \<longrightarrow> retry fn options = ([], Inl None)"
    by (simp add: r retry_loop.simps [of fn m ?sa 0])
  have p5: "\<forall>calls out. retry fn options = (calls, out)
        \<longrightarrow> calls = [0..<length calls] \<and> int (length calls) \<le> max 0 m"
  proof (intro allI impI)
    fix calls out assume "retry fn options = (calls, out)"
    then have "retry_loop fn m ?sa 0 None = (calls, out)" by (simp add: r)
    from retry_loop_calls [OF this]
    show "calls = [0..<length calls] \<and> int (length calls) \<le> max 0 m" by simp
  qed
  from p1 p2 p3 p4 p5 show ?thesis by (intro conjI)
qed

theorem retry_contract_witness:
  "retry flaky \<lparr>maxAttempts = Some 3, baseDelayMs = Some 1, maxDelayMs = None,
       shouldAbort = None\<rparr> = ([0, 1, 2], Inr ''ok'') \<and>
   retry always_fatal \<lparr>maxAttempts = Some 5, baseDelayMs = Some 1, maxDelayMs = None,
       shouldAbort = Some (\<lambda>e. e = ''fatal'')\<rparr> = ([0], Inl (Some ''fatal'')) \<and>
   retry always_fails \<lparr>maxAttempts = None, baseDelayMs = Some 1, maxDelayMs = None,
       shouldAbort = None\<rparr> = ([0, 1, 2], Inl (Some ''fail''))"
proof -
  let ?o1 = "\<lparr>maxAttempts = Some 3, baseDelayMs = Some 1, maxDelayMs = None,
       shouldAbort = None :: (string \<Rightarrow> bool) option\<rparr>"
  let ?o2 = "\<lparr>maxAttempts = Some 5, baseDelayMs = Some 1, maxDelayMs = None,
       shouldAbort = Some (\<lambda>e. e = ''fatal'')\<rparr>"
  let ?o3 = "\<lparr>maxAttempts = None, baseDelayMs = Some 1, maxDelayMs = None,
       shouldAbort = None :: (string \<Rightarrow> bool) option\<rparr>"
  have upt3: "[0..<Suc 2] = [0, 1, 2]" "[0..<nat 3] = [0, 1, 2]" "[0..<Suc 0] = [0]"
    by (simp_all add: eval_nat_numeral)
  have m1: "maxAttempts ?o1 = Some 3 \<or> maxAttempts ?o1 = None \<and> (3::int) = 3" by simp
  have h1: "int 2 < 3 \<and>
      (\<forall>i<2. \<exists>e. flaky i = Inl e \<and> (\<forall>f. shouldAbort ?o1 = Some f \<longrightarrow> \<not> f e)) \<and>
      flaky 2 = Inr ''ok''"
    by (auto simp: flaky_def less_Suc_eq numeral_2_eq_2)
  from retry_contract [OF m1, of flaky, THEN conjunct1, rule_format, OF h1]
  have w1: "retry flaky ?o1 = ([0, 1, 2], Inr ''ok'')" by (simp only: upt3)
  have m2: "maxAttempts ?o2 = Some 5 \<or> maxAttempts ?o2 = None \<and> (5::int) = 3" by simp
  have h2: "int 0 < 5 \<and>
      (\<forall>i<0. \<exists>e. always_fatal i = Inl e \<and> (\<forall>f. shouldAbort ?o2 = Some f \<longrightarrow> \<not> f e)) \<and>
      always_fatal 0 = Inl ''fatal'' \<and> shouldAbort ?o2 = Some (\<lambda>e. e = ''fatal'') \<and>
      (\<lambda>e. e = ''fatal'') ''fatal''"
    by (simp add: always_fatal_def)
  from retry_contract [OF m2, of always_fatal, THEN conjunct2, THEN conjunct1, rule_format, OF h2]
  have w2: "retry always_fatal ?o2 = ([0], Inl (Some ''fatal''))" by (simp only: upt3)
  have m3: "maxAttempts ?o3 = Some 3 \<or> maxAttempts ?o3 = None \<and> (3::int) = 3" by simp
  have h3: "(0::int) < 3 \<and>
      (\<forall>i. int i < 3 \<longrightarrow>
         (\<exists>e. always_fails i = Inl e \<and> (\<forall>f. shouldAbort ?o3 = Some f \<longrightarrow> \<not> f e))) \<and>
      always_fails (nat 3 - 1) = Inl ''fail''"
    by (simp add: always_fails_def)
  from retry_contract [OF m3, of always_fails, THEN conjunct2, THEN conjunct2, THEN conjunct1,
      rule_format, OF h3]
  have w3: "retry always_fails ?o3 = ([0, 1, 2], Inl (Some ''fail''))" by (simp only: upt3)
  from w1 w2 w3 show ?thesis by (intro conjI)
qed

end
